theory Spec2Isabelle
  imports Main
begin

section \<open>Characters and Python's string methods\<close>

text \<open>
  Python strings are sequences of code points. Source text is modelled as a \<^typ>\<open>string\<close>
  whose characters are the code points U+0000 to U+00FF, one \<^typ>\<open>char\<close> each, so
  \<^const>\<open>length\<close> counts what Python's \<^verbatim>\<open>len\<close> counts. The built-in methods
  \<^verbatim>\<open>str.isalnum\<close>, \<^verbatim>\<open>str.isdigit\<close> and \<^verbatim>\<open>str.upper\<close> are tabulated on that range as
  CPython evaluates them. Two code points, U+00B5 and U+00FF, have an upper-case form
  outside the range (U+039C, U+0178); the table leaves them unchanged, which keeps the
  length of the word and its classification.
\<close>

abbreviation NL :: char where "NL \<equiv> CHR 0x0A"
abbreviation CR :: char where "CR \<equiv> CHR 0x0D"
abbreviation TAB :: char where "TAB \<equiv> CHR 0x09"
abbreviation QUOTE :: char where "QUOTE \<equiv> CHR 0x27"
abbreviation SHARP_S :: char where "SHARP_S \<equiv> CHR 0xDF"

definition isalnum :: "char \<Rightarrow> bool" where
  "isalnum c = (let n = (of_char c :: nat) in
     (48 \<le> n \<and> n \<le> 57) \<or> (65 \<le> n \<and> n \<le> 90) \<or> (97 \<le> n \<and> n \<le> 122) \<or>
     n \<in> {170, 178, 179, 181, 185, 186, 188, 189, 190} \<or>
     (192 \<le> n \<and> n \<le> 214) \<or> (216 \<le> n \<and> n \<le> 246) \<or> (248 \<le> n \<and> n \<le> 255))"

definition isdigit_char :: "char \<Rightarrow> bool" where
  "isdigit_char c = (let n = (of_char c :: nat) in
     (48 \<le> n \<and> n \<le> 57) \<or> n \<in> {178, 179, 185})"

definition isdigit :: "string \<Rightarrow> bool" where
  "isdigit s = (s \<noteq> [] \<and> list_all isdigit_char s)"

definition upper_table :: "(char \<times> char) list" where
  "upper_table =
     zip ''abcdefghijklmnopqrstuvwxyz'' ''ABCDEFGHIJKLMNOPQRSTUVWXYZ'' @
     zip [CHR 0xE0, CHR 0xE1, CHR 0xE2, CHR 0xE3, CHR 0xE4, CHR 0xE5, CHR 0xE6, CHR 0xE7,
          CHR 0xE8, CHR 0xE9, CHR 0xEA, CHR 0xEB, CHR 0xEC, CHR 0xED, CHR 0xEE, CHR 0xEF,
          CHR 0xF0, CHR 0xF1, CHR 0xF2, CHR 0xF3, CHR 0xF4, CHR 0xF5, CHR 0xF6,
          CHR 0xF8, CHR 0xF9, CHR 0xFA, CHR 0xFB, CHR 0xFC, CHR 0xFD, CHR 0xFE]
         [CHR 0xC0, CHR 0xC1, CHR 0xC2, CHR 0xC3, CHR 0xC4, CHR 0xC5, CHR 0xC6, CHR 0xC7,
          CHR 0xC8, CHR 0xC9, CHR 0xCA, CHR 0xCB, CHR 0xCC, CHR 0xCD, CHR 0xCE, CHR 0xCF,
          CHR 0xD0, CHR 0xD1, CHR 0xD2, CHR 0xD3, CHR 0xD4, CHR 0xD5, CHR 0xD6,
          CHR 0xD8, CHR 0xD9, CHR 0xDA, CHR 0xDB, CHR 0xDC, CHR 0xDD, CHR 0xDE]"

definition upper_char :: "char \<Rightarrow> string" where
  "upper_char c = (if c = SHARP_S then ''SS''
     else case map_of upper_table c of Some u \<Rightarrow> [u] | None \<Rightarrow> [c])"

definition upper :: "string \<Rightarrow> string" where
  "upper s = concat (map upper_char s)"

text \<open>\<^verbatim>\<open>s.lstrip(' \t')\<close>\<close>

definition lstrip :: "string \<Rightarrow> string" where
  "lstrip s = dropWhile (\<lambda>c. c = CHR '' '' \<or> c = TAB) s"


section \<open>Values of the keyword dictionaries\<close>

text \<open>
  The dictionaries of the example parser (\<^verbatim>\<open>examples/adduser_parser.py\<close>) hold \<^verbatim>\<open>True\<close> for a
  flag, a string, a list of strings, or a nested \<^verbatim>\<open>Segment\<close>. A dictionary is a map; the
  order of insertion is not kept.
\<close>

datatype val = VTrue | VStr string | VList "string list" | VSegment Segment
and Segment = Segment (seg_name: string) (seg_keywords: "string \<Rightarrow> val option")


section \<open>The server: \<^verbatim>\<open>server/racf_server.py\<close>\<close>

subsection \<open>Vocabulary tables\<close>

text \<open>
  The dictionaries of the source map a word to a description (for \<^verbatim>\<open>RACF_COMMANDS\<close>, to
  an abbreviation and a description). The lexer reads only their keys and the
  abbreviations, so the descriptions are left out.
\<close>

definition RACF_COMMANDS :: "(string \<times> string) list" where
  "RACF_COMMANDS =
    [(''ADDUSER'', ''AU''), (''ALTUSER'', ''ALU''), (''DELUSER'', ''DU''),
     (''LISTUSER'', ''LU''), (''PASSWORD'', ''PW''),
     (''ADDGROUP'', ''AG''), (''ALTGROUP'', ''ALG''), (''DELGROUP'', ''DG''),
     (''LISTGRP'', ''LG''),
     (''CONNECT'', ''CO''), (''REMOVE'', ''RE''),
     (''ADDSD'', ''AD''), (''ALTDSD'', ''ALD''), (''DELDSD'', ''DD''), (''LISTDSD'', ''LD''),
     (''RDEFINE'', ''RDEF''), (''RALTER'', ''RALT''), (''RDELETE'', ''RDEL''),
     (''RLIST'', ''RL''),
     (''PERMIT'', ''PE''),
     (''SETROPTS'', ''SETR''),
     (''SEARCH'', ''SR''),
     (''RACDCERT'', '''')]"

definition BASE_KEYWORDS :: "string list" where
  "BASE_KEYWORDS =
    [''ADSP'', ''NOADSP'', ''AUDITOR'', ''NOAUDITOR'', ''GRPACC'', ''NOGRPACC'',
     ''OIDCARD'', ''NOOIDCARD'', ''OPERATIONS'', ''NOOPERATIONS'',
     ''RESTRICTED'', ''NORESTRICTED'', ''ROAUDIT'', ''NOROAUDIT'',
     ''SPECIAL'', ''NOSPECIAL'', ''NOPASSWORD'', ''NOCLAUTH'',
     ''ADDCATEGORY'', ''AUTHORITY'', ''CLAUTH'', ''DATA'', ''DFLTGRP'',
     ''MODEL'', ''NAME'', ''OWNER'', ''PASSWORD'', ''PHRASE'',
     ''SECLABEL'', ''SECLEVEL'', ''UACC'']"

definition SEGMENTS :: "string list" where
  "SEGMENTS =
    [''CICS'', ''DCE'', ''DFP'', ''EIM'', ''KERB'', ''LANGUAGE'', ''LNOTES'',
     ''NDS'', ''NETVIEW'', ''OMVS'', ''OPERPARM'', ''OVM'', ''PROXY'',
     ''TSO'', ''WHEN'', ''WORKATTR'']"

definition OMVS_KEYWORDS :: "string list" where
  "OMVS_KEYWORDS =
    [''ASSIZEMAX'', ''AUTOUID'', ''UID'', ''SHARED'', ''CPUTIMEMAX'',
     ''FILEPROCMAX'', ''HOME'', ''MEMLIMIT'', ''NOMEMLIMIT'',
     ''MMAPAREAMAX'', ''PROCUSERMAX'', ''PROGRAM'', ''SHMEMMAX'',
     ''NOSHMEMMAX'', ''THREADSMAX'']"

definition TSO_KEYWORDS :: "string list" where
  "TSO_KEYWORDS =
    [''ACCTNUM'', ''COMMAND'', ''DEST'', ''HOLDCLASS'', ''JOBCLASS'',
     ''MAXSIZE'', ''MSGCLASS'', ''PROC'', ''SECLABEL'', ''SIZE'', ''UNIT'', ''USERDATA'']"

definition ACCESS_LEVELS :: "string list" where
  "ACCESS_LEVELS = [''NONE'', ''READ'', ''UPDATE'', ''CONTROL'', ''ALTER'']"

definition GROUP_AUTHORITIES :: "string list" where
  "GROUP_AUTHORITIES = [''USE'', ''CREATE'', ''CONNECT'', ''JOIN'']"

definition RESOURCE_CLASSES :: "string list" where
  "RESOURCE_CLASSES =
    [''DATASET'', ''FACILITY'', ''PROGRAM'', ''TERMINAL'', ''SDSF'', ''TAPEVOL'',
     ''DASDVOL'', ''JESSPOOL'', ''JESJOBS'', ''SURROGAT'', ''OPERCMDS'', ''CONSOLE'']"

definition ALL_KEYWORDS :: "string list" where
  "ALL_KEYWORDS =
     map fst RACF_COMMANDS @
     filter (\<lambda>k. k \<noteq> []) (map snd RACF_COMMANDS) @
     BASE_KEYWORDS @ SEGMENTS @ OMVS_KEYWORDS @ TSO_KEYWORDS @
     ACCESS_LEVELS @ GROUP_AUTHORITIES @ RESOURCE_CLASSES @
     [''CLASS'', ''ID'', ''ACCESS'', ''AUDIT'', ''ALL'', ''MASK'', ''REFRESH'',
      ''HISTORY'', ''INTERVAL'', ''CLASSACT'', ''RACLIST'', ''GID'', ''SUPGROUP'']"

subsection \<open>Tokens\<close>

datatype TokenType =
  COMMAND | KEYWORD | SEGMENT | LPAREN | RPAREN | STRING | IDENTIFIER | NUMBER
  | CONTINUATION | COMMENT | EOF

record Token =
  tk_type :: TokenType
  tk_value :: string
  tk_line :: nat
  tk_column :: nat
  tk_end_column :: nat

text \<open>
  The dataclass constructor followed by \<^verbatim>\<open>__post_init__\<close>. Every call of the source
  passes four arguments, so \<^verbatim>\<open>end_column\<close> starts at its default 0 and is set to
  \<^verbatim>\<open>column + len(value)\<close>.
\<close>

definition new_Token :: "TokenType \<Rightarrow> string \<Rightarrow> nat \<Rightarrow> nat \<Rightarrow> Token" where
  "new_Token ty v l c =
     \<lparr>tk_type = ty, tk_value = v, tk_line = l, tk_column = c, tk_end_column = c + length v\<rparr>"

subsection \<open>Lexer\<close>

text \<open>
  The lexer's \<^verbatim>\<open>source\<close> and \<^verbatim>\<open>pos\<close> are represented by the unread suffix
  \<^verbatim>\<open>source[pos:]\<close>, which is all the methods read. The token list \<^verbatim>\<open>self.tokens\<close> is the
  result of the main loop, in the order of the appends.
\<close>

record lexer =
  rest :: string
  line :: nat
  column :: nat

definition Lexer :: "string \<Rightarrow> lexer" where
  "Lexer source = \<lparr>rest = source, line = 0, column = 0\<rparr>"

definition current_char :: "lexer \<Rightarrow> char option" where
  "current_char L = (case rest L of [] \<Rightarrow> None | c # _ \<Rightarrow> Some c)"

definition peek :: "lexer \<Rightarrow> char option" where
  "peek L = (case rest L of _ # c # _ \<Rightarrow> Some c | _ \<Rightarrow> None)"

definition advance :: "lexer \<Rightarrow> lexer" where
  "advance L =
     (if current_char L = Some NL
      then L\<lparr>rest := tl (rest L), line := line L + 1, column := 0\<rparr>
      else L\<lparr>rest := tl (rest L), column := column L + 1\<rparr>)"

function skip_whitespace :: "lexer \<Rightarrow> lexer" where
  "skip_whitespace L =
     (case current_char L of
        None \<Rightarrow> L
      | Some c \<Rightarrow> if c = CHR '' '' \<or> c = TAB then skip_whitespace (advance L) else L)"
  by pat_completeness auto
termination
  by (relation "measure (\<lambda>L. length (rest L))")
    (auto simp: current_char_def advance_def split: list.splits)

text \<open>The \<^verbatim>\<open>while\<close> loop of \<^verbatim>\<open>read_comment\<close>, with the text read so far.\<close>

function read_comment_loop :: "lexer \<Rightarrow> string \<Rightarrow> string \<times> lexer" where
  "read_comment_loop L v =
     (case current_char L of
        None \<Rightarrow> (v, L)
      | Some c \<Rightarrow>
          if c = CHR ''*'' \<and> peek L = Some (CHR ''/'')
          then (v @ ''*/'', advance (advance L))
          else read_comment_loop (advance L) (v @ [c]))"
  by pat_completeness auto
termination
  by (relation "measure (\<lambda>(L, v). length (rest L))")
    (auto simp: current_char_def advance_def split: list.splits)

definition read_comment :: "lexer \<Rightarrow> Token \<times> lexer" where
  "read_comment L =
     (let (v, L') = read_comment_loop (advance (advance L)) ''/*''
      in (new_Token COMMENT v (line L) (column L), L'))"

function read_string_loop :: "lexer \<Rightarrow> string \<Rightarrow> string \<times> lexer" where
  "read_string_loop L v =
     (case current_char L of
        None \<Rightarrow> (v, L)
      | Some c \<Rightarrow>
          if c = QUOTE
          then (if peek L = Some QUOTE
                then read_string_loop (advance (advance L)) (v @ [QUOTE])
                else (v, advance L))
          else read_string_loop (advance L) (v @ [c]))"
  by pat_completeness auto
termination
  by (relation "measure (\<lambda>(L, v). length (rest L))")
    (auto simp: current_char_def peek_def advance_def split: list.splits)

definition read_string :: "lexer \<Rightarrow> Token \<times> lexer" where
  "read_string L =
     (let (v, L') = read_string_loop (advance L) []
      in (new_Token STRING v (line L) (column L), L'))"

definition ident_char :: "char \<Rightarrow> bool" where
  "ident_char c = (isalnum c \<or> c \<in> set ''@#$._'')"

function read_identifier_loop :: "lexer \<Rightarrow> string \<Rightarrow> string \<times> lexer" where
  "read_identifier_loop L v =
     (case current_char L of
        None \<Rightarrow> (v, L)
      | Some c \<Rightarrow>
          if ident_char c then read_identifier_loop (advance L) (v @ [c]) else (v, L))"
  by pat_completeness auto
termination
  by (relation "measure (\<lambda>(L, v). length (rest L))")
    (auto simp: current_char_def advance_def split: list.splits)

definition read_identifier :: "lexer \<Rightarrow> Token \<times> lexer" where
  "read_identifier L =
     (case read_identifier_loop L [] of (v, L') \<Rightarrow>
        (let u = upper v in
         if u \<in> set (map fst RACF_COMMANDS) then new_Token COMMAND u (line L) (column L)
         else if u \<in> set (map snd RACF_COMMANDS) then new_Token COMMAND u (line L) (column L)
         else if u \<in> set SEGMENTS then new_Token SEGMENT u (line L) (column L)
         else if u \<in> set ALL_KEYWORDS then new_Token KEYWORD u (line L) (column L)
         else if isdigit v then new_Token NUMBER v (line L) (column L)
         else new_Token IDENTIFIER (upper v) (line L) (column L),
         L'))"

text \<open>
  The main loop of \<^verbatim>\<open>tokenize\<close>. One unit of fuel is one evaluation of the loop body;
  \<^const>\<open>None\<close> means that the fuel ran out before the loop ended.
\<close>

fun tokenize_loop :: "nat \<Rightarrow> lexer \<Rightarrow> Token list option" where
  "tokenize_loop 0 L = None"
| "tokenize_loop (Suc n) L =
     (case current_char L of
        None \<Rightarrow> Some [new_Token EOF [] (line L) (column L)]
      | Some c \<Rightarrow>
          if c = CHR '' '' \<or> c = TAB then tokenize_loop n (skip_whitespace L)
          else if c = NL then tokenize_loop n (advance L)
          else if c = CHR ''/'' \<and> peek L = Some (CHR ''*'')
          then (case read_comment L of (t, L') \<Rightarrow> map_option ((#) t) (tokenize_loop n L'))
          else if c = CHR ''-''
          then (let r = lstrip (tl (rest L)) in
                if r = [] \<or> hd r = NL
                then map_option ((#) (new_Token CONTINUATION ''-'' (line L) (column L)))
                       (tokenize_loop n (advance L))
                else tokenize_loop n (advance L))
          else if c = CHR ''(''
          then map_option ((#) (new_Token LPAREN ''('' (line L) (column L)))
                 (tokenize_loop n (advance L))
          else if c = CHR '')''
          then map_option ((#) (new_Token RPAREN '')'' (line L) (column L)))
                 (tokenize_loop n (advance L))
          else if c = QUOTE
          then (case read_string L of (t, L') \<Rightarrow> map_option ((#) t) (tokenize_loop n L'))
          else if isalnum c \<or> c \<in> set ''@#$%''
          then (case read_identifier L of (t, L') \<Rightarrow> map_option ((#) t) (tokenize_loop n L'))
          else tokenize_loop n (advance L))"

definition tokenize :: "nat \<Rightarrow> string \<Rightarrow> Token list option" where
  "tokenize fuel source = tokenize_loop fuel (Lexer source)"


subsection \<open>Document representation\<close>

text \<open>
  The dictionaries of a command are typed \<^verbatim>\<open>Dict[str, Any]\<close>; they are given the value type
  of the example parser. The server never stores a value in them.
\<close>

record RACFCommand =
  cmd_name :: string
  cmd_line :: nat
  cmd_end_line :: nat
  cmd_arguments :: "string list"
  cmd_keywords :: "string \<rightharpoonup> val"
  cmd_segments :: "string \<rightharpoonup> (string \<rightharpoonup> val)"
  cmd_flags :: "string set"

record RACFDocument =
  doc_uri :: string
  doc_content :: string
  doc_lines :: "string list"
  doc_commands :: "RACFCommand list"
  doc_diagnostics :: "(string \<rightharpoonup> val) list"
  doc_tokens :: "Token list"

text \<open>\<^verbatim>\<open>content.split('\n')\<close>\<close>

fun split_lines :: "string \<Rightarrow> string list" where
  "split_lines [] = [[]]"
| "split_lines (c # cs) =
     (if c = NL then [] # split_lines cs
      else (case split_lines cs of l # ls \<Rightarrow> (c # l) # ls | [] \<Rightarrow> [[c]]))"

text \<open>The constructor call \<^verbatim>\<open>RACFCommand(name=..., line=..., end_line=...)\<close>.\<close>

definition new_RACFCommand :: "string \<Rightarrow> nat \<Rightarrow> nat \<Rightarrow> RACFCommand" where
  "new_RACFCommand n l e =
     \<lparr>cmd_name = n, cmd_line = l, cmd_end_line = e, cmd_arguments = [],
      cmd_keywords = Map.empty, cmd_segments = Map.empty, cmd_flags = {}\<rparr>"

text \<open>
  The inner loop of \<^verbatim>\<open>RACFDocument.parse\<close>: \<^verbatim>\<open>j\<close> runs over the tokens after the command
  token, the second argument is \<^verbatim>\<open>cmd.end_line\<close> so far.
\<close>

fun find_end :: "Token list \<Rightarrow> nat \<Rightarrow> nat" where
  "find_end [] e = e"
| "find_end (t # ts) e =
     (if tk_type t = COMMAND then e
      else if tk_type t = EOF then e
      else find_end ts (tk_line t))"

text \<open>The outer loop of \<^verbatim>\<open>RACFDocument.parse\<close>, over \<^verbatim>\<open>self.tokens[i:]\<close>.\<close>

fun parse_commands :: "Token list \<Rightarrow> RACFCommand list" where
  "parse_commands [] = []"
| "parse_commands (token # ts) =
     (if tk_type token = COMMAND
      then new_RACFCommand (tk_value token) (tk_line token) (find_end ts (tk_line token))
             # parse_commands ts
      else parse_commands ts)"

text \<open>
  The constructor of \<^verbatim>\<open>RACFDocument\<close>, which calls \<^verbatim>\<open>parse\<close>. The fuel is the lexer's;
  \<^const>\<open>None\<close> means that \<^verbatim>\<open>tokenize\<close> did not return.
\<close>

definition RACFDocument :: "nat \<Rightarrow> string \<Rightarrow> string \<Rightarrow> RACFDocument option" where
  "RACFDocument fuel uri content =
     (case tokenize fuel content of
        None \<Rightarrow> None
      | Some toks \<Rightarrow>
          Some \<lparr>doc_uri = uri, doc_content = content, doc_lines = split_lines content,
                 doc_commands = parse_commands toks, doc_diagnostics = [],
                 doc_tokens = toks\<rparr>)"

fun token_at :: "Token list \<Rightarrow> int \<Rightarrow> int \<Rightarrow> Token option" where
  "token_at [] l ch = None"
| "token_at (token # ts) l ch =
     (if int (tk_line token) = l \<and> int (tk_column token) \<le> ch \<and> ch < int (tk_end_column token)
      then Some token
      else token_at ts l ch)"

definition get_token_at_position :: "RACFDocument \<Rightarrow> int \<Rightarrow> int \<Rightarrow> Token option" where
  "get_token_at_position doc l ch = token_at (doc_tokens doc) l ch"

fun command_at :: "RACFCommand list \<Rightarrow> int \<Rightarrow> RACFCommand option" where
  "command_at [] l = None"
| "command_at (cmd # cs) l =
     (if int (cmd_line cmd) \<le> l \<and> l \<le> int (cmd_end_line cmd) then Some cmd
      else command_at cs l)"

definition get_command_at_line :: "RACFDocument \<Rightarrow> int \<Rightarrow> RACFCommand option" where
  "get_command_at_line doc l = command_at (doc_commands doc) l"

subsection \<open>Positions, spans and coverage\<close>

text \<open>
  The order of positions: line first, then column. \<open>covers\<close> is the test of
  \<^verbatim>\<open>get_token_at_position\<close>, \<open>contains_line\<close> the test of \<^verbatim>\<open>get_command_at_line\<close>.
\<close>

definition pos_le :: "nat \<Rightarrow> nat \<Rightarrow> nat \<Rightarrow> nat \<Rightarrow> bool" where
  "pos_le l c l' c' = (l < l' \<or> (l = l' \<and> c \<le> c'))"

definition word_type :: "TokenType \<Rightarrow> bool" where
  "word_type ty = (ty = COMMAND \<or> ty = KEYWORD \<or> ty = SEGMENT \<or> ty = IDENTIFIER \<or> ty = NUMBER)"

definition emits :: "lexer \<Rightarrow> Token \<Rightarrow> lexer \<Rightarrow> bool" where
  "emits L t L' =
     (tk_line t = line L \<and> tk_column t = column L \<and> tk_column t \<le> tk_end_column t \<and>
      (SHARP_S \<notin> set (rest L) \<longrightarrow> pos_le (line L) (tk_end_column t) (line L') (column L')) \<and>
      (word_type (tk_type t) \<longrightarrow> CHR ''-'' \<notin> set (tk_value t)))"

definition progress :: "lexer \<Rightarrow> lexer \<Rightarrow> bool" where
  "progress L L' =
     (line L \<le> line L' \<and> pos_le (line L) (column L) (line L') (column L') \<and>
      set (rest L') \<subseteq> set (rest L))"

fun ordered_from :: "nat \<Rightarrow> nat \<Rightarrow> Token list \<Rightarrow> bool" where
  "ordered_from l c [] = True"
| "ordered_from l c (t # ts) =
     (pos_le l c (tk_line t) (tk_column t) \<and> tk_column t \<le> tk_end_column t \<and>
      ordered_from (tk_line t) (tk_end_column t) ts)"

definition covers :: "Token \<Rightarrow> int \<Rightarrow> int \<Rightarrow> bool" where
  "covers t l ch = (int (tk_line t) = l \<and> int (tk_column t) \<le> ch \<and> ch < int (tk_end_column t))"

definition contains_line :: "RACFCommand \<Rightarrow> int \<Rightarrow> bool" where
  "contains_line cmd l = (int (cmd_line cmd) \<le> l \<and> l \<le> int (cmd_end_line cmd))"

fun spans_ordered :: "RACFCommand list \<Rightarrow> bool" where
  "spans_ordered [] = True"
| "spans_ordered (c # cs) =
     (cmd_line c \<le> cmd_end_line c \<and> (\<forall>d\<in>set cs. cmd_end_line c \<le> cmd_line d) \<and>
      spans_ordered cs)"

definition is_command :: "Token \<Rightarrow> bool" where
  "is_command t = (tk_type t = COMMAND)"

subsection \<open>Concrete documents\<close>

definition eszett_source :: string where
  "eszett_source = [SHARP_S, SHARP_S, CHR ''('']"

definition two_commands_source :: string where
  "two_commands_source = ''AU (A'' @ [NL] @ ''LU (B) SPECIAL''"

definition two_commands_tokens :: "Token list" where
  "two_commands_tokens =
     [new_Token COMMAND ''AU'' 0 0, new_Token LPAREN ''('' 0 3, new_Token IDENTIFIER ''A'' 0 4,
      new_Token COMMAND ''LU'' 1 0, new_Token LPAREN ''('' 1 3, new_Token IDENTIFIER ''B'' 1 4,
      new_Token RPAREN '')'' 1 5, new_Token KEYWORD ''SPECIAL'' 1 7, new_Token EOF [] 1 14]"

definition two_commands_doc :: RACFDocument where
  "two_commands_doc =
     \<lparr>doc_uri = [], doc_content = two_commands_source,
      doc_lines = [''AU (A'', ''LU (B) SPECIAL''],
      doc_commands = [new_RACFCommand ''AU'' 0 0, new_RACFCommand ''LU'' 1 1],
      doc_diagnostics = [], doc_tokens = two_commands_tokens\<rparr>"

definition same_line_source :: string where
  "same_line_source = ''AU LU''"

definition same_line_tokens :: "Token list" where
  "same_line_tokens =
     [new_Token COMMAND ''AU'' 0 0, new_Token COMMAND ''LU'' 0 3, new_Token EOF [] 0 5]"

definition same_line_doc :: RACFDocument where
  "same_line_doc =
     \<lparr>doc_uri = [], doc_content = same_line_source, doc_lines = [''AU LU''],
      doc_commands = [new_RACFCommand ''AU'' 0 0, new_RACFCommand ''LU'' 0 0],
      doc_diagnostics = [], doc_tokens = same_line_tokens\<rparr>"

definition eszett_tokens :: "Token list" where
  "eszett_tokens =
     [new_Token IDENTIFIER ''SSSS'' 0 0, new_Token LPAREN ''('' 0 2, new_Token EOF [] 0 3]"

definition eszett_doc :: RACFDocument where
  "eszett_doc =
     \<lparr>doc_uri = [], doc_content = eszett_source, doc_lines = [eszett_source],
      doc_commands = [], doc_diagnostics = [], doc_tokens = eszett_tokens\<rparr>"

declare skip_whitespace.simps [simp del]
declare read_comment_loop.simps [simp del]
declare read_string_loop.simps [simp del]
declare read_identifier_loop.simps [simp del]


section \<open>The example parser: \<^verbatim>\<open>examples/adduser_parser.py\<close>\<close>

subsection \<open>Tokens and vocabulary\<close>

datatype ex_TokenType =
  ex_COMMAND | ex_KEYWORD | ex_LPAREN | ex_RPAREN | ex_STRING | ex_IDENTIFIER | ex_NUMBER
  | ex_CONTINUATION | ex_EOF

record ex_Token =
  ex_type :: ex_TokenType
  ex_value :: string
  ex_line :: nat
  ex_column :: nat

definition new_ex_Token :: "ex_TokenType \<Rightarrow> string \<Rightarrow> nat \<Rightarrow> nat \<Rightarrow> ex_Token" where
  "new_ex_Token ty v l c = \<lparr>ex_type = ty, ex_value = v, ex_line = l, ex_column = c\<rparr>"

definition ADDUSER_KEYWORDS :: "string list" where
  "ADDUSER_KEYWORDS =
    [''ADDUSER'', ''AU'',
     ''ADSP'', ''NOADSP'', ''AUDITOR'', ''NOAUDITOR'', ''GRPACC'', ''NOGRPACC'',
     ''OIDCARD'', ''NOOIDCARD'', ''OPERATIONS'', ''NOOPERATIONS'',
     ''RESTRICTED'', ''NORESTRICTED'', ''ROAUDIT'', ''NOROAUDIT'',
     ''SPECIAL'', ''NOSPECIAL'', ''NOPASSWORD'', ''NOCLAUTH'',
     ''ADDCATEGORY'', ''AUTHORITY'', ''CLAUTH'', ''DATA'', ''DFLTGRP'',
     ''MODEL'', ''NAME'', ''OWNER'', ''PASSWORD'', ''PHRASE'',
     ''SECLABEL'', ''SECLEVEL'', ''UACC'',
     ''CICS'', ''DCE'', ''DFP'', ''EIM'', ''KERB'', ''LANGUAGE'', ''LNOTES'',
     ''NDS'', ''NETVIEW'', ''OMVS'', ''OPERPARM'', ''OVM'', ''PROXY'',
     ''TSO'', ''WHEN'', ''WORKATTR'',
     ''ASSIZEMAX'', ''AUTOUID'', ''UID'', ''SHARED'', ''CPUTIMEMAX'',
     ''FILEPROCMAX'', ''HOME'', ''MEMLIMIT'', ''NOMEMLIMIT'',
     ''MMAPAREAMAX'', ''PROCUSERMAX'', ''PROGRAM'', ''SHMEMMAX'',
     ''NOSHMEMMAX'', ''THREADSMAX'',
     ''ACCTNUM'', ''COMMAND'', ''DEST'', ''HOLDCLASS'', ''JOBCLASS'',
     ''MAXSIZE'', ''MSGCLASS'', ''PROC'', ''SIZE'', ''SYS'', ''UNIT'', ''USERDATA'',
     ''DATAAPPL'', ''DATACLAS'', ''MGMTCLAS'', ''STORCLAS'',
     ''DAYS'', ''TIME'',
     ''ENCRYPT'', ''KERBNAME'', ''MAXTKTLFE'',
     ''DES'', ''NODES'', ''DES3'', ''NODES3'', ''DESD'', ''NODESD'',
     ''AES128'', ''NOAES128'', ''AES256'', ''NOAES256'',
     ''AES128SHA2'', ''NOAES128SHA2'', ''AES256SHA2'', ''NOAES256SHA2'',
     ''PRIMARY'', ''SECONDARY'',
     ''OPCLASS'', ''OPIDENT'', ''OPPRTY'', ''RSLKEY'', ''TIMEOUT'', ''TSLKEY'',
     ''XRFSOFF'', ''FORCE'', ''NOFORCE'',
     ''NONE'', ''READ'', ''UPDATE'', ''CONTROL'', ''ALTER'',
     ''USE'', ''CREATE'', ''CONNECT'', ''JOIN'']"

definition SEGMENT_NAMES :: "string list" where
  "SEGMENT_NAMES =
    [''CICS'', ''DCE'', ''DFP'', ''EIM'', ''KERB'', ''LANGUAGE'', ''LNOTES'',
     ''NDS'', ''NETVIEW'', ''OMVS'', ''OPERPARM'', ''OVM'', ''PROXY'',
     ''TSO'', ''WHEN'', ''WORKATTR'', ''ENCRYPT'']"

definition FLAG_KEYWORDS :: "string list" where
  "FLAG_KEYWORDS =
    [''ADSP'', ''NOADSP'', ''AUDITOR'', ''NOAUDITOR'', ''GRPACC'', ''NOGRPACC'',
     ''OIDCARD'', ''NOOIDCARD'', ''OPERATIONS'', ''NOOPERATIONS'',
     ''RESTRICTED'', ''NORESTRICTED'', ''ROAUDIT'', ''NOROAUDIT'',
     ''SPECIAL'', ''NOSPECIAL'', ''NOPASSWORD'', ''NOCLAUTH'',
     ''AUTOUID'', ''SHARED'', ''NOMEMLIMIT'', ''NOSHMEMMAX'',
     ''DES'', ''NODES'', ''DES3'', ''NODES3'', ''DESD'', ''NODESD'',
     ''AES128'', ''NOAES128'', ''AES256'', ''NOAES256'',
     ''AES128SHA2'', ''NOAES128SHA2'', ''AES256SHA2'', ''NOAES256SHA2'',
     ''FORCE'', ''NOFORCE'']"

subsection \<open>Lexer\<close>

text \<open>
  The state is that of the server's lexer, with the same \<^verbatim>\<open>current_char\<close> and \<^verbatim>\<open>peek\<close>;
  lines and columns start at 1.
\<close>

definition ex_Lexer :: "string \<Rightarrow> lexer" where
  "ex_Lexer source = \<lparr>rest = source, line = 1, column = 1\<rparr>"

definition ex_advance :: "lexer \<Rightarrow> lexer" where
  "ex_advance L =
     (if current_char L = Some NL
      then L\<lparr>rest := tl (rest L), line := line L + 1, column := 1\<rparr>
      else L\<lparr>rest := tl (rest L), column := column L + 1\<rparr>)"

definition ex_space :: "char \<Rightarrow> bool" where
  "ex_space c = (c = CHR '' '' \<or> c = TAB \<or> c = NL \<or> c = CR)"

function ex_skip_whitespace :: "lexer \<Rightarrow> lexer" where
  "ex_skip_whitespace L =
     (case current_char L of
        None \<Rightarrow> L
      | Some c \<Rightarrow> if ex_space c then ex_skip_whitespace (ex_advance L) else L)"
  by pat_completeness auto
termination
  by (relation "measure (\<lambda>L. length (rest L))")
    (auto simp: current_char_def ex_advance_def split: list.splits)

function ex_skip_comment_loop :: "lexer \<Rightarrow> lexer" where
  "ex_skip_comment_loop L =
     (case current_char L of
        None \<Rightarrow> L
      | Some c \<Rightarrow>
          if c = CHR ''*'' \<and> peek L = Some (CHR ''/'')
          then ex_advance (ex_advance L)
          else ex_skip_comment_loop (ex_advance L))"
  by pat_completeness auto
termination
  by (relation "measure (\<lambda>L. length (rest L))")
    (auto simp: current_char_def ex_advance_def split: list.splits)

definition ex_skip_comment :: "lexer \<Rightarrow> lexer" where
  "ex_skip_comment L =
     (if current_char L = Some (CHR ''/'') \<and> peek L = Some (CHR ''*'')
      then ex_skip_comment_loop (ex_advance (ex_advance L))
      else L)"

function ex_read_string_loop :: "lexer \<Rightarrow> string \<Rightarrow> string \<times> lexer" where
  "ex_read_string_loop L v =
     (case current_char L of
        None \<Rightarrow> (v, L)
      | Some c \<Rightarrow>
          if c = QUOTE
          then (if peek L = Some QUOTE
                then ex_read_string_loop (ex_advance (ex_advance L)) (v @ [QUOTE])
                else (v, ex_advance L))
          else ex_read_string_loop (ex_advance L) (v @ [c]))"
  by pat_completeness auto
termination
  by (relation "measure (\<lambda>(L, v). length (rest L))")
    (auto simp: current_char_def peek_def ex_advance_def split: list.splits)

definition ex_read_string :: "lexer \<Rightarrow> ex_Token \<times> lexer" where
  "ex_read_string L =
     (case ex_read_string_loop (ex_advance L) [] of
        (v, L') \<Rightarrow> (new_ex_Token ex_STRING v (line L) (column L), L'))"

definition ex_ident_char :: "char \<Rightarrow> bool" where
  "ex_ident_char c = (isalnum c \<or> c \<in> set ''@#$_'')"

function ex_read_identifier_loop :: "lexer \<Rightarrow> string \<Rightarrow> string \<times> lexer" where
  "ex_read_identifier_loop L v =
     (case current_char L of
        None \<Rightarrow> (v, L)
      | Some c \<Rightarrow>
          if ex_ident_char c then ex_read_identifier_loop (ex_advance L) (v @ [c])
          else (v, L))"
  by pat_completeness auto
termination
  by (relation "measure (\<lambda>(L, v). length (rest L))")
    (auto simp: current_char_def ex_advance_def split: list.splits)

definition read_identifier_or_keyword :: "lexer \<Rightarrow> ex_Token \<times> lexer" where
  "read_identifier_or_keyword L =
     (case ex_read_identifier_loop L [] of (v, L') \<Rightarrow>
        (let u = upper v in
         if u \<in> set ADDUSER_KEYWORDS
         then (if u = ''ADDUSER'' \<or> u = ''AU''
               then new_ex_Token ex_COMMAND u (line L) (column L)
               else new_ex_Token ex_KEYWORD u (line L) (column L))
         else if isdigit v then new_ex_Token ex_NUMBER v (line L) (column L)
         else new_ex_Token ex_IDENTIFIER (upper v) (line L) (column L),
         L'))"

declare ex_skip_whitespace.simps [simp del]
declare ex_skip_comment_loop.simps [simp del]
declare ex_read_string_loop.simps [simp del]
declare ex_read_identifier_loop.simps [simp del]

text \<open>Every reader called by the main loop consumes at least one character.\<close>

lemma ex_advance_rest: "rest (ex_advance L) = tl (rest L)"
  by (simp add: ex_advance_def)

lemma ex_skip_whitespace_length:
  "length (rest (ex_skip_whitespace L)) \<le> length (rest L)"
proof (induction L rule: ex_skip_whitespace.induct)
  case (1 L)
  show ?case
  proof (cases "current_char L")
    case None
    then show ?thesis by (simp add: ex_skip_whitespace.simps [of L])
  next
    case (Some c)
    with 1 [OF Some] show ?thesis
      by (cases "ex_space c") (simp_all add: ex_skip_whitespace.simps [of L] ex_advance_rest)
  qed
qed

lemma ex_skip_comment_loop_length:
  "length (rest (ex_skip_comment_loop L)) \<le> length (rest L)"
proof (induction L rule: ex_skip_comment_loop.induct)
  case (1 L)
  show ?case
  proof (cases "current_char L")
    case None
    then show ?thesis by (simp add: ex_skip_comment_loop.simps [of L])
  next
    case (Some c)
    with 1 [OF Some] show ?thesis
      by (cases "c = CHR ''*'' \<and> peek L = Some (CHR ''/'')")
        (auto simp: ex_skip_comment_loop.simps [of L] ex_advance_rest)
  qed
qed

lemma ex_read_string_loop_length:
  "ex_read_string_loop L v = (v', L') \<Longrightarrow> length (rest L') \<le> length (rest L)"
proof (induction L v rule: ex_read_string_loop.induct)
  case (1 L v)
  show ?case
  proof (cases "current_char L")
    case None
    with 1 show ?thesis by (simp add: ex_read_string_loop.simps [of L])
  next
    case (Some c)
    show ?thesis
    proof (cases "c = QUOTE")
      case True
      with 1 Some show ?thesis
        by (cases "peek L = Some QUOTE")
          (auto simp: ex_read_string_loop.simps [of L] ex_advance_rest)
    next
      case False
      with 1 Some show ?thesis
        by (auto simp: ex_read_string_loop.simps [of L] ex_advance_rest)
    qed
  qed
qed

lemma ex_read_identifier_loop_length:
  "ex_read_identifier_loop L v = (v', L') \<Longrightarrow> length (rest L') \<le> length (rest L)"
proof (induction L v rule: ex_read_identifier_loop.induct)
  case (1 L v)
  show ?case
  proof (cases "current_char L")
    case None
    with 1 show ?thesis by (simp add: ex_read_identifier_loop.simps [of L])
  next
    case (Some c)
    with 1 show ?thesis
      by (cases "ex_ident_char c")
        (auto simp: ex_read_identifier_loop.simps [of L] ex_advance_rest)
  qed
qed

lemma ex_readers_shorter:
  assumes "current_char L = Some c"
  shows "ex_space c \<Longrightarrow> length (rest (ex_skip_whitespace L)) < length (rest L)"
    and "c = CHR ''/'' \<and> peek L = Some (CHR ''*'') \<Longrightarrow>
         length (rest (ex_skip_comment L)) < length (rest L)"
    and "length (rest (ex_advance L)) < length (rest L)"
    and "ex_read_string L = (t, L') \<Longrightarrow> length (rest L') < length (rest L)"
    and "isalnum c \<or> c \<in> set ''@#$'' \<Longrightarrow> read_identifier_or_keyword L = (t', L'') \<Longrightarrow>
         length (rest L'') < length (rest L)"
proof -
  from assms obtain cs where r: "rest L = c # cs"
    by (cases "rest L") (auto simp: current_char_def)
  show "ex_space c \<Longrightarrow> length (rest (ex_skip_whitespace L)) < length (rest L)"
    using ex_skip_whitespace_length [of "ex_advance L"] assms r
    by (simp add: ex_skip_whitespace.simps [of L] ex_advance_rest)
  show "c = CHR ''/'' \<and> peek L = Some (CHR ''*'') \<Longrightarrow>
         length (rest (ex_skip_comment L)) < length (rest L)"
    using ex_skip_comment_loop_length [of "ex_advance (ex_advance L)"] assms r
    by (auto simp: ex_skip_comment_def ex_advance_rest)
  show "length (rest (ex_advance L)) < length (rest L)"
    using r by (simp add: ex_advance_rest)
  show "ex_read_string L = (t, L') \<Longrightarrow> length (rest L') < length (rest L)"
    using ex_read_string_loop_length [of "ex_advance L" "[]"] r
    by (auto simp: ex_read_string_def ex_advance_rest split: prod.splits)
  show "isalnum c \<or> c \<in> set ''@#$'' \<Longrightarrow> read_identifier_or_keyword L = (t', L'') \<Longrightarrow>
         length (rest L'') < length (rest L)"
  proof -
    assume c: "isalnum c \<or> c \<in> set ''@#$''" and e: "read_identifier_or_keyword L = (t', L'')"
    from c have "ex_ident_char c" by (auto simp: ex_ident_char_def)
    with assms have "ex_read_identifier_loop L [] = ex_read_identifier_loop (ex_advance L) [c]"
      by (simp add: ex_read_identifier_loop.simps [of L])
    moreover from e obtain v where "ex_read_identifier_loop L [] = (v, L'')"
      by (auto simp: read_identifier_or_keyword_def split: prod.splits)
    ultimately have "ex_read_identifier_loop (ex_advance L) [c] = (v, L'')" by simp
    from ex_read_identifier_loop_length [OF this] r show ?thesis
      by (simp add: ex_advance_rest)
  qed
qed

text \<open>The main loop of \<^verbatim>\<open>tokenize\<close>; the result is \<^verbatim>\<open>self.tokens\<close>.\<close>

function ex_tokenize_loop :: "lexer \<Rightarrow> ex_Token list" where
  "ex_tokenize_loop L =
     (case current_char L of
        None \<Rightarrow> [new_ex_Token ex_EOF [] (line L) (column L)]
      | Some c \<Rightarrow>
          if ex_space c then ex_tokenize_loop (ex_skip_whitespace L)
          else if c = CHR ''/'' \<and> peek L = Some (CHR ''*'')
          then ex_tokenize_loop (ex_skip_comment L)
          else if c = CHR ''-'' \<and> (peek L = None \<or> peek L = Some NL \<or> peek L = Some CR)
          then new_ex_Token ex_CONTINUATION ''-'' (line L) (column L)
                 # ex_tokenize_loop (ex_advance L)
          else if c = CHR ''(''
          then new_ex_Token ex_LPAREN ''('' (line L) (column L) # ex_tokenize_loop (ex_advance L)
          else if c = CHR '')''
          then new_ex_Token ex_RPAREN '')'' (line L) (column L) # ex_tokenize_loop (ex_advance L)
          else if c = QUOTE
          then (case ex_read_string L of (t, L') \<Rightarrow> t # ex_tokenize_loop L')
          else if isalnum c \<or> c \<in> set ''@#$''
          then (case read_identifier_or_keyword L of (t, L') \<Rightarrow> t # ex_tokenize_loop L')
          else ex_tokenize_loop (ex_advance L))"
  by pat_completeness auto
termination
proof (relation "measure (\<lambda>L. length (rest L))", goal_cases)
  case 1
  show ?case by simp
next
  case (2 L c)
  then show ?case using ex_readers_shorter(1) by simp
next
  case (3 L c)
  then show ?case using ex_readers_shorter(2) [of L c] by simp
next
  case (4 L c)
  then show ?case using ex_readers_shorter(3) by simp
next
  case (5 L c)
  then show ?case using ex_readers_shorter(3) by simp
next
  case (6 L c)
  then show ?case using ex_readers_shorter(3) by simp
next
  case (7 L c t L')
  then show ?case using ex_readers_shorter(4) [of L c t L'] by simp
next
  case (8 L c t L')
  then show ?case using ex_readers_shorter(5) [of L c t L'] by simp
next
  case (9 L c)
  then show ?case using ex_readers_shorter(3) by simp
qed

declare ex_tokenize_loop.simps [simp del]

definition ex_tokenize :: "string \<Rightarrow> ex_Token list" where
  "ex_tokenize source = ex_tokenize_loop (ex_Lexer source)"

subsection \<open>AST\<close>

record AddUserCommand =
  au_userids :: "string list"
  au_keywords :: "string \<rightharpoonup> val"
  au_segments :: "string \<rightharpoonup> Segment"
  au_flags :: "string set"

definition new_AddUserCommand :: AddUserCommand where
  "new_AddUserCommand = \<lparr>au_userids = [], au_keywords = Map.empty, au_segments = Map.empty, au_flags = {}\<rparr>"

text \<open>\<^verbatim>\<open>segment.keywords[kw] = v\<close>\<close>

definition set_keyword :: "Segment \<Rightarrow> string \<Rightarrow> val \<Rightarrow> Segment" where
  "set_keyword segment kw v = Segment (seg_name segment) ((seg_keywords segment)(kw \<mapsto> v))"

subsection \<open>Parser\<close>

text \<open>
  A method of the parser returns its value and the parser after it, or raises. Every loop
  and every call takes fuel; \<^const>\<open>None\<close> means that the fuel ran out.
  \<^verbatim>\<open>current\<close> reads \<^verbatim>\<open>self.tokens[-1]\<close> past the end, which raises \<^verbatim>\<open>IndexError\<close> on an empty
  list: \<open>parse\<close> makes that first read, so the other methods run on a non-empty list.
\<close>

datatype error = SyntaxError | IndexError

record parser =
  tokens :: "ex_Token list"
  pos :: nat

type_synonym 'a result = "(error + 'a \<times> parser) option"

definition not_continuation :: "ex_Token \<Rightarrow> bool" where
  "not_continuation t = (ex_type t \<noteq> ex_CONTINUATION)"

definition Parser :: "ex_Token list \<Rightarrow> parser" where
  "Parser toks = \<lparr>tokens = filter not_continuation toks, pos = 0\<rparr>"

definition current :: "parser \<Rightarrow> ex_Token" where
  "current P = (if pos P \<ge> length (tokens P) then last (tokens P) else tokens P ! pos P)"

definition advance_p :: "parser \<Rightarrow> parser" where
  "advance_p P = P\<lparr>pos := pos P + 1\<rparr>"

definition expect :: "ex_TokenType \<Rightarrow> parser \<Rightarrow> error + ex_Token \<times> parser" where
  "expect token_type P =
     (if ex_type (current P) \<noteq> token_type then Inl SyntaxError
      else Inr (current P, advance_p P))"

definition is_value :: "ex_TokenType \<Rightarrow> bool" where
  "is_value ty = (ty = ex_IDENTIFIER \<or> ty = ex_STRING \<or> ty = ex_NUMBER \<or> ty = ex_KEYWORD)"

text \<open>The \<^verbatim>\<open>while\<close> loop of \<^verbatim>\<open>parse_value_list\<close>.\<close>

fun value_list_loop :: "nat \<Rightarrow> parser \<Rightarrow> string list \<Rightarrow> (string list \<times> parser) option" where
  "value_list_loop 0 P values = None"
| "value_list_loop (Suc n) P values =
     (if ex_type (current P) \<noteq> ex_RPAREN
      then (if is_value (ex_type (current P))
            then value_list_loop n (advance_p P) (values @ [ex_value (current P)])
            else Some (values, P))
      else Some (values, P))"

definition parse_value_list :: "nat \<Rightarrow> parser \<Rightarrow> (string list) result" where
  "parse_value_list n P =
     (case expect ex_LPAREN P of
        Inl e \<Rightarrow> Some (Inl e)
      | Inr (_, P1) \<Rightarrow>
          (case value_list_loop n P1 [] of
             None \<Rightarrow> None
           | Some (values, P2) \<Rightarrow>
               (case expect ex_RPAREN P2 of
                  Inl e \<Rightarrow> Some (Inl e)
                | Inr (_, P3) \<Rightarrow> Some (Inr (values, P3)))))"

definition parse_single_value :: "nat \<Rightarrow> parser \<Rightarrow> val result" where
  "parse_single_value n P =
     (case parse_value_list n P of
        None \<Rightarrow> None
      | Some (Inl e) \<Rightarrow> Some (Inl e)
      | Some (Inr (values, P')) \<Rightarrow>
          Some (Inr (if length values = 1 then VStr (values ! 0) else VList values, P')))"

text \<open>\<^verbatim>\<open>parse_segment\<close> and its \<^verbatim>\<open>while\<close> loop.\<close>

fun parse_segment :: "nat \<Rightarrow> string \<Rightarrow> parser \<Rightarrow> Segment result"
  and parse_segment_loop :: "nat \<Rightarrow> parser \<Rightarrow> Segment \<Rightarrow> Segment result" where
  "parse_segment 0 name P = None"
| "parse_segment (Suc n) name P =
     (case expect ex_LPAREN P of
        Inl e \<Rightarrow> Some (Inl e)
      | Inr (_, P1) \<Rightarrow>
          (case parse_segment_loop n P1 (Segment name Map.empty) of
             None \<Rightarrow> None
           | Some (Inl e) \<Rightarrow> Some (Inl e)
           | Some (Inr (segment, P2)) \<Rightarrow>
               (case expect ex_RPAREN P2 of
                  Inl e \<Rightarrow> Some (Inl e)
                | Inr (_, P3) \<Rightarrow> Some (Inr (segment, P3)))))"
| "parse_segment_loop 0 P segment = None"
| "parse_segment_loop (Suc n) P segment =
     (if ex_type (current P) \<noteq> ex_RPAREN
      then (if ex_type (current P) = ex_KEYWORD
            then (let kw = ex_value (current P); P1 = advance_p P in
                  if kw \<in> set FLAG_KEYWORDS
                  then parse_segment_loop n P1 (set_keyword segment kw VTrue)
                  else if ex_type (current P1) = ex_LPAREN
                  then (if kw \<in> set SEGMENT_NAMES
                        then (case parse_segment n kw P1 of
                                None \<Rightarrow> None
                              | Some (Inl e) \<Rightarrow> Some (Inl e)
                              | Some (Inr (s, P2)) \<Rightarrow>
                                  parse_segment_loop n P2 (set_keyword segment kw (VSegment s)))
                        else (case parse_single_value n P1 of
                                None \<Rightarrow> None
                              | Some (Inl e) \<Rightarrow> Some (Inl e)
                              | Some (Inr (v, P2)) \<Rightarrow>
                                  parse_segment_loop n P2 (set_keyword segment kw v)))
                  else parse_segment_loop n P1 segment)
            else if ex_type (current P) = ex_EOF then Some (Inr (segment, P))
            else parse_segment_loop n (advance_p P) segment)
      else Some (Inr (segment, P)))"

text \<open>The \<^verbatim>\<open>while\<close> loop of \<^verbatim>\<open>parse\<close>.\<close>

fun parse_loop :: "nat \<Rightarrow> parser \<Rightarrow> AddUserCommand \<Rightarrow> (error + AddUserCommand) option" where
  "parse_loop 0 P cmd = None"
| "parse_loop (Suc n) P cmd =
     (if ex_type (current P) \<noteq> ex_EOF
      then (if ex_type (current P) = ex_KEYWORD
            then (let kw = ex_value (current P); P1 = advance_p P in
                  if kw \<in> set FLAG_KEYWORDS
                  then parse_loop n P1 (cmd\<lparr>au_flags := insert kw (au_flags cmd)\<rparr>)
                  else if kw \<in> set SEGMENT_NAMES
                  then (case parse_segment n kw P1 of
                          None \<Rightarrow> None
                        | Some (Inl e) \<Rightarrow> Some (Inl e)
                        | Some (Inr (s, P2)) \<Rightarrow>
                            parse_loop n P2 (cmd\<lparr>au_segments := (au_segments cmd)(kw \<mapsto> s)\<rparr>))
                  else if ex_type (current P1) = ex_LPAREN
                  then (case parse_single_value n P1 of
                          None \<Rightarrow> None
                        | Some (Inl e) \<Rightarrow> Some (Inl e)
                        | Some (Inr (v, P2)) \<Rightarrow>
                            parse_loop n P2 (cmd\<lparr>au_keywords := (au_keywords cmd)(kw \<mapsto> v)\<rparr>))
                  else parse_loop n P1 cmd)
            else parse_loop n (advance_p P) cmd)
      else Some (Inr cmd))"

definition parse :: "nat \<Rightarrow> parser \<Rightarrow> (error + AddUserCommand) option" where
  "parse n P =
     (if tokens P = [] then Some (Inl IndexError)
      else if ex_type (current P) \<noteq> ex_COMMAND then Some (Inl SyntaxError)
      else (case parse_value_list n (advance_p P) of
              None \<Rightarrow> None
            | Some (Inl e) \<Rightarrow> Some (Inl e)
            | Some (Inr (values, P1)) \<Rightarrow>
                parse_loop n P1 (new_AddUserCommand\<lparr>au_userids := values\<rparr>)))"

definition parse_adduser :: "nat \<Rightarrow> string \<Rightarrow> (error + AddUserCommand) option" where
  "parse_adduser n source = parse n (Parser (ex_tokenize source))"

subsection \<open>Token shapes and what the parser records\<close>

text \<open>The token the parser reads at position \<open>i\<close> of a token list.\<close>

definition token_at_pos :: "ex_Token list \<Rightarrow> nat \<Rightarrow> ex_Token" where
  "token_at_pos toks i = current \<lparr>tokens = toks, pos = i\<rparr>"

text \<open>The keywords of a token list that stand directly before a left parenthesis.\<close>

definition before_lparen :: "ex_Token list \<Rightarrow> string \<Rightarrow> bool" where
  "before_lparen toks kw =
     (\<exists>i. ex_type (token_at_pos toks i) = ex_KEYWORD \<and> ex_value (token_at_pos toks i) = kw \<and>
          ex_type (token_at_pos toks (Suc i)) = ex_LPAREN)"

definition seg_ok :: "ex_Token list \<Rightarrow> Segment \<Rightarrow> Segment \<Rightarrow> bool" where
  "seg_ok toks seg s =
     (seg_name s = seg_name seg \<and>
      dom (seg_keywords seg) \<subseteq> dom (seg_keywords s) \<and>
      (\<forall>kw\<in>set FLAG_KEYWORDS.
         seg_keywords seg kw = Some VTrue \<longrightarrow> seg_keywords s kw = Some VTrue) \<and>
      (\<forall>kw\<in>dom (seg_keywords s).
         kw \<in> dom (seg_keywords seg) \<or> kw \<in> set FLAG_KEYWORDS \<or> before_lparen toks kw))"

definition cmd_ok :: "ex_Token list \<Rightarrow> AddUserCommand \<Rightarrow> AddUserCommand \<Rightarrow> bool" where
  "cmd_ok toks cmd c =
     (au_userids c = au_userids cmd \<and>
      au_flags cmd \<subseteq> au_flags c \<and> au_flags c \<subseteq> au_flags cmd \<union> set FLAG_KEYWORDS \<and>
      dom (au_keywords cmd) \<subseteq> dom (au_keywords c) \<and>
      dom (au_segments cmd) \<subseteq> dom (au_segments c) \<and>
      (\<forall>kw\<in>dom (au_keywords c).
         kw \<in> dom (au_keywords cmd) \<or>
         (kw \<notin> set FLAG_KEYWORDS \<and> kw \<notin> set SEGMENT_NAMES \<and> before_lparen toks kw)) \<and>
      (\<forall>kw\<in>dom (au_segments c).
         kw \<in> dom (au_segments cmd) \<or> (kw \<notin> set FLAG_KEYWORDS \<and> kw \<in> set SEGMENT_NAMES)))"

text \<open>The type and the value of a token, without its position.\<close>

definition strip :: "ex_Token \<Rightarrow> ex_TokenType \<times> string" where
  "strip t = (ex_type t, ex_value t)"

definition unplaced :: "ex_TokenType \<times> string \<Rightarrow> ex_Token" where
  "unplaced p = new_ex_Token (fst p) (snd p) 0 0"

definition unplace :: "parser \<Rightarrow> parser" where
  "unplace P = P\<lparr>tokens := map (unplaced \<circ> strip) (tokens P)\<rparr>"

definition nested_shape ::
  "string \<Rightarrow> string \<Rightarrow> string \<Rightarrow> string \<Rightarrow> string \<Rightarrow> (ex_TokenType \<times> string) list" where
  "nested_shape u a b c x =
     [(ex_COMMAND, ''ADDUSER''), (ex_LPAREN, ''(''), (ex_IDENTIFIER, u), (ex_RPAREN, '')''),
      (ex_KEYWORD, a), (ex_LPAREN, ''(''), (ex_KEYWORD, b), (ex_LPAREN, ''(''),
      (ex_KEYWORD, c), (ex_LPAREN, ''(''), (ex_KEYWORD, x),
      (ex_RPAREN, '')''), (ex_RPAREN, '')''), (ex_RPAREN, '')''), (ex_EOF, [])]"

subsection \<open>Concrete commands\<close>

definition nested_source :: string where
  "nested_source = ''ADDUSER (U) KERB(ENCRYPT(OMVS(UID)))''"

definition nested_tokens :: "ex_Token list" where
  "nested_tokens =
     [new_ex_Token ex_COMMAND ''ADDUSER'' 1 1, new_ex_Token ex_LPAREN ''('' 1 9,
      new_ex_Token ex_IDENTIFIER ''U'' 1 10, new_ex_Token ex_RPAREN '')'' 1 11,
      new_ex_Token ex_KEYWORD ''KERB'' 1 13, new_ex_Token ex_LPAREN ''('' 1 17,
      new_ex_Token ex_KEYWORD ''ENCRYPT'' 1 18, new_ex_Token ex_LPAREN ''('' 1 25,
      new_ex_Token ex_KEYWORD ''OMVS'' 1 26, new_ex_Token ex_LPAREN ''('' 1 30,
      new_ex_Token ex_KEYWORD ''UID'' 1 31, new_ex_Token ex_RPAREN '')'' 1 34,
      new_ex_Token ex_RPAREN '')'' 1 35, new_ex_Token ex_RPAREN '')'' 1 36,
      new_ex_Token ex_EOF [] 1 37]"

definition flag_nested_source :: string where
  "flag_nested_source = ''ADDUSER (U) KERB(ENCRYPT(OMVS(AUTOUID)))''"

definition flag_nested_tokens :: "ex_Token list" where
  "flag_nested_tokens =
     [new_ex_Token ex_COMMAND ''ADDUSER'' 1 1, new_ex_Token ex_LPAREN ''('' 1 9,
      new_ex_Token ex_IDENTIFIER ''U'' 1 10, new_ex_Token ex_RPAREN '')'' 1 11,
      new_ex_Token ex_KEYWORD ''KERB'' 1 13, new_ex_Token ex_LPAREN ''('' 1 17,
      new_ex_Token ex_KEYWORD ''ENCRYPT'' 1 18, new_ex_Token ex_LPAREN ''('' 1 25,
      new_ex_Token ex_KEYWORD ''OMVS'' 1 26, new_ex_Token ex_LPAREN ''('' 1 30,
      new_ex_Token ex_KEYWORD ''AUTOUID'' 1 31, new_ex_Token ex_RPAREN '')'' 1 38,
      new_ex_Token ex_RPAREN '')'' 1 39, new_ex_Token ex_RPAREN '')'' 1 40,
      new_ex_Token ex_EOF [] 1 41]"

definition segment_source :: string where
  "segment_source = ''ADDUSER (U) OMVS(UID(1))''"

definition segment_tokens :: "ex_Token list" where
  "segment_tokens =
     [new_ex_Token ex_COMMAND ''ADDUSER'' 1 1, new_ex_Token ex_LPAREN ''('' 1 9,
      new_ex_Token ex_IDENTIFIER ''U'' 1 10, new_ex_Token ex_RPAREN '')'' 1 11,
      new_ex_Token ex_KEYWORD ''OMVS'' 1 13, new_ex_Token ex_LPAREN ''('' 1 17,
      new_ex_Token ex_KEYWORD ''UID'' 1 18, new_ex_Token ex_LPAREN ''('' 1 21,
      new_ex_Token ex_NUMBER ''1'' 1 22, new_ex_Token ex_RPAREN '')'' 1 23,
      new_ex_Token ex_RPAREN '')'' 1 24, new_ex_Token ex_EOF [] 1 25]"

definition mixed_source :: string where
  "mixed_source = ''ADDUSER (U) SPECIAL NAME(X) DATA''"

definition mixed_tokens :: "ex_Token list" where
  "mixed_tokens =
     [new_ex_Token ex_COMMAND ''ADDUSER'' 1 1, new_ex_Token ex_LPAREN ''('' 1 9,
      new_ex_Token ex_IDENTIFIER ''U'' 1 10, new_ex_Token ex_RPAREN '')'' 1 11,
      new_ex_Token ex_KEYWORD ''SPECIAL'' 1 13, new_ex_Token ex_KEYWORD ''NAME'' 1 21,
      new_ex_Token ex_LPAREN ''('' 1 25, new_ex_Token ex_IDENTIFIER ''X'' 1 26,
      new_ex_Token ex_RPAREN '')'' 1 27, new_ex_Token ex_KEYWORD ''DATA'' 1 29,
      new_ex_Token ex_EOF [] 1 33]"

definition mixed_result :: AddUserCommand where
  "mixed_result =
     \<lparr>au_userids = [''U''], au_keywords = [''NAME'' \<mapsto> VStr ''X''], au_segments = Map.empty,
      au_flags = {''SPECIAL''}\<rparr>"

text \<open>A segment with a flag and a valued keyword.\<close>

definition segment_flag_source :: string where
  "segment_flag_source = ''ADDUSER (U) OMVS(AUTOUID UID(1))''"

definition segment_flag_tokens :: "ex_Token list" where
  "segment_flag_tokens =
     [new_ex_Token ex_COMMAND ''ADDUSER'' 1 1, new_ex_Token ex_LPAREN ''('' 1 9,
      new_ex_Token ex_IDENTIFIER ''U'' 1 10, new_ex_Token ex_RPAREN '')'' 1 11,
      new_ex_Token ex_KEYWORD ''OMVS'' 1 13, new_ex_Token ex_LPAREN ''('' 1 17,
      new_ex_Token ex_KEYWORD ''AUTOUID'' 1 18, new_ex_Token ex_KEYWORD ''UID'' 1 26,
      new_ex_Token ex_LPAREN ''('' 1 29, new_ex_Token ex_NUMBER ''1'' 1 30,
      new_ex_Token ex_RPAREN '')'' 1 31, new_ex_Token ex_RPAREN '')'' 1 32,
      new_ex_Token ex_EOF [] 1 33]"

definition segment_flag_segment :: Segment where
  "segment_flag_segment = Segment ''OMVS'' [''AUTOUID'' \<mapsto> VTrue, ''UID'' \<mapsto> VStr ''1'']"

definition segment_flag_result :: AddUserCommand where
  "segment_flag_result =
     \<lparr>au_userids = [''U''], au_keywords = Map.empty,
      au_segments = [''OMVS'' \<mapsto> segment_flag_segment], au_flags = {}\<rparr>"

text \<open>A value list that is not closed.\<close>

definition unclosed_source :: string where
  "unclosed_source = ''ADDUSER (U) NAME(X''"

text \<open>A string with every quote character doubled, as it is written inside a literal.\<close>

definition escape_quotes :: "string \<Rightarrow> string" where
  "escape_quotes s = concat (map (\<lambda>c. if c = QUOTE then [QUOTE, QUOTE] else [c]) s)"


subsection \<open>The example lexer as a function of the text\<close>

text \<open>
  The example lexer without positions: the types and values of the tokens as a function of
  the unread text alone.
\<close>

definition second :: "string \<Rightarrow> char option" where
  "second s = (case s of _ # d # _ \<Rightarrow> Some d | _ \<Rightarrow> None)"

text \<open>The text after the end of a comment body; empty when the comment is not closed.\<close>

fun after_comment :: "string \<Rightarrow> string" where
  "after_comment (c # d # cs) =
     (if c = CHR ''*'' \<and> d = CHR ''/'' then cs else after_comment (d # cs))"
| "after_comment cs = []"

text \<open>
  The body of a string literal after its opening quote: the value, the text after the
  closing quote, and whether there is a closing quote.
\<close>

fun scan_string :: "string \<Rightarrow> string \<times> string \<times> bool" where
  "scan_string [] = ([], [], False)"
| "scan_string (c # cs) =
     (if c = QUOTE
      then (case cs of
              [] \<Rightarrow> ([], [], True)
            | d # ds \<Rightarrow>
                if d = QUOTE then (case scan_string ds of (v, r, b) \<Rightarrow> (QUOTE # v, r, b))
                else ([], cs, True))
      else (case scan_string cs of (v, r, b) \<Rightarrow> (c # v, r, b)))"

definition word_token :: "string \<Rightarrow> ex_TokenType \<times> string" where
  "word_token v =
     (let u = upper v in
      if u \<in> set ADDUSER_KEYWORDS
      then (if u = ''ADDUSER'' \<or> u = ''AU'' then (ex_COMMAND, u) else (ex_KEYWORD, u))
      else if isdigit v then (ex_NUMBER, v)
      else (ex_IDENTIFIER, upper v))"

lemma after_comment_length: "length (after_comment s) \<le> length s"
  by (induction s rule: after_comment.induct) auto

lemma scan_string_length: "scan_string s = (v, r, b) \<Longrightarrow> length r \<le> length s"
proof (induction s arbitrary: v r b rule: scan_string.induct)
  case 1
  then show ?case by simp
next
  case (2 c cs)
  show ?case
  proof (cases "c = QUOTE")
    case True
    show ?thesis
    proof (cases cs)
      case Nil
      with 2 True show ?thesis by simp
    next
      case (Cons d ds)
      show ?thesis
      proof (cases "d = QUOTE")
        case q: True
        obtain v' r' b' where s: "scan_string ds = (v', r', b')" by (cases "scan_string ds")
        with "2.prems" True Cons q have "r = r'" by simp
        with "2.IH"(1) [OF True Cons q s] Cons show ?thesis by simp
      next
        case False
        with "2.prems" True Cons show ?thesis by auto
      qed
    qed
  next
    case False
    obtain v' r' b' where s: "scan_string cs = (v', r', b')" by (cases "scan_string cs")
    with "2.prems" False have "r = r'" by simp
    with "2.IH"(2) [OF False s] show ?thesis by simp
  qed
qed

lemma scan_string_rest_length: "length (fst (snd (scan_string s))) \<le> length s"
  using scan_string_length [of s] by (cases "scan_string s") auto

function lexs :: "string \<Rightarrow> (ex_TokenType \<times> string) list" where
  "lexs s =
     (case s of
        [] \<Rightarrow> [(ex_EOF, [])]
      | c # cs \<Rightarrow>
          if ex_space c then lexs (dropWhile ex_space s)
          else if c = CHR ''/'' \<and> second s = Some (CHR ''*'') then lexs (after_comment (drop 2 s))
          else if c = CHR ''-'' \<and> (second s = None \<or> second s = Some NL \<or> second s = Some CR)
          then (ex_CONTINUATION, ''-'') # lexs cs
          else if c = CHR ''('' then (ex_LPAREN, ''('') # lexs cs
          else if c = CHR '')'' then (ex_RPAREN, '')'') # lexs cs
          else if c = QUOTE then (case scan_string cs of (v, r, b) \<Rightarrow> (ex_STRING, v) # lexs r)
          else if isalnum c \<or> c \<in> set ''@#$''
          then word_token (takeWhile ex_ident_char s) # lexs (dropWhile ex_ident_char s)
          else lexs cs)"
  by pat_completeness auto
termination
proof (relation "measure length", goal_cases)
  case 1
  show ?case by simp
next
  case (2 s c cs)
  then show ?case using length_dropWhile_le [of ex_space cs] by simp
next
  case (3 s c cs)
  then show ?case using after_comment_length [of "drop 2 s"] by simp
next
  case 7
  then show ?case
    by (auto simp: less_Suc_eq_le dest: scan_string_length [OF sym])
next
  case (8 s c cs)
  then have "ex_ident_char c" by (auto simp: ex_ident_char_def)
  with 8 show ?case using length_dropWhile_le [of ex_ident_char cs] by simp
qed simp_all

declare lexs.simps [simp del]

text \<open>Whether a text ends inside a string literal that is still open.\<close>

function open_string :: "string \<Rightarrow> bool" where
  "open_string s =
     (case s of
        [] \<Rightarrow> False
      | c # cs \<Rightarrow>
          if c = CHR ''/'' \<and> second s = Some (CHR ''*'')
          then open_string (after_comment (drop 2 s))
          else if c = QUOTE
          then (case scan_string cs of (v, r, b) \<Rightarrow> if b then open_string r else True)
          else open_string cs)"
  by pat_completeness auto
termination
proof (relation "measure length", goal_cases)
  case 1
  show ?case by simp
next
  case (2 s c cs)
  then show ?case using after_comment_length [of "drop 2 s"] by simp
next
  case 3
  then show ?case
    by (auto simp: less_Suc_eq_le dest: scan_string_length [OF sym])
qed simp_all

declare open_string.simps [simp del]

text \<open>The tokens the parser sees: continuation markers removed.\<close>

definition folded :: "string \<Rightarrow> (ex_TokenType \<times> string) list" where
  "folded s = filter (\<lambda>p. fst p \<noteq> ex_CONTINUATION) (lexs s)"

text \<open>The characters at which the main loop starts a word.\<close>

definition word_start :: "char \<Rightarrow> bool" where
  "word_start c = (isalnum c \<or> c \<in> set ''@#$'')"

text \<open>Whether a comment body holds the closing \<^verbatim>\<open>*/\<close>.\<close>

fun comment_closed :: "string \<Rightarrow> bool" where
  "comment_closed (c # d # cs) = ((c = CHR ''*'' \<and> d = CHR ''/'') \<or> comment_closed (d # cs))"
| "comment_closed cs = False"


subsection \<open>Lines joined by continuation markers\<close>

text \<open>\<^verbatim>\<open>sep.join(lines)\<close>\<close>

fun join_with :: "string \<Rightarrow> string list \<Rightarrow> string" where
  "join_with sep [] = []"
| "join_with sep [l] = l"
| "join_with sep (l # ls) = l @ sep @ join_with sep ls"

text \<open>
  No marker between two of the lines lies inside a string literal: the text before each
  marker does not end in an open literal.
\<close>

definition markers_outside_strings :: "string list \<Rightarrow> bool" where
  "markers_outside_strings ls =
     list_all (\<lambda>k. \<not> open_string (join_with (CHR ''-'' # [NL]) (take k ls))) [1..<length ls]"

text \<open>The command \<^verbatim>\<open>ADDUSER (JSMITH) OMVS(UID(1000) HOME('/u/jsmith'))\<close> on two lines.\<close>

definition folding_lines :: "string list" where
  "folding_lines = [''ADDUSER (JSMITH) '', ''  OMVS(UID(1000) HOME('' @ [QUOTE] @ ''/u/jsmith'' @ [QUOTE] @ ''))'']"

text \<open>The command \<^verbatim>\<open>ADDUSER (U) NAME('a b')\<close> with its string literal on two lines.\<close>

definition literal_lines :: "string list" where
  "literal_lines = [''ADDUSER (U) NAME('' @ [QUOTE] @ ''a'', ''b'' @ [QUOTE] @ '')'']"

text \<open>The string stored for a keyword of a segment of a parsed command.\<close>

definition segment_scalar :: "(error + AddUserCommand) option \<Rightarrow> string \<Rightarrow> string \<Rightarrow> string option" where
  "segment_scalar res seg kw =
     (case res of
        Some (Inr c) \<Rightarrow>
          (case au_segments c seg of
             None \<Rightarrow> None
           | Some s \<Rightarrow> (case seg_keywords s kw of Some (VStr v) \<Rightarrow> Some v | _ \<Rightarrow> None))
      | _ \<Rightarrow> None)"

text \<open>The token types of the example lexer that are read as words.\<close>

definition ex_word_type :: "ex_TokenType \<Rightarrow> bool" where
  "ex_word_type ty = (ty = ex_COMMAND \<or> ty = ex_KEYWORD \<or> ty = ex_IDENTIFIER \<or> ty = ex_NUMBER)"


section \<open>Termination of the server's lexer\<close>

lemma snd_read_identifier:
  "snd (read_identifier L) = snd (read_identifier_loop L [])"
  by (simp add: read_identifier_def split: prod.splits)

lemma read_identifier_percent:
  "rest L = ''%'' \<Longrightarrow> snd (read_identifier L) = L"
  by (simp add: snd_read_identifier read_identifier_loop.simps [of L] current_char_def
      ident_char_def isalnum_def)

lemma tokenize_loop_percent:
  "rest L = ''%'' \<Longrightarrow> tokenize_loop n L = None"
proof (induction n)
  case 0
  show ?case by simp
next
  case (Suc n)
  have "snd (read_identifier L) = L"
    using Suc.prems by (rule read_identifier_percent)
  then obtain t where "read_identifier L = (t, L)"
    by (cases "read_identifier L") simp
  with Suc show ?case
    by (simp add: current_char_def isalnum_def)
qed

text \<open>
  C3. On the one-character source \<^verbatim>\<open>%\<close> the loop of \<^verbatim>\<open>tokenize\<close> never ends: the
  character starts an identifier, \<^verbatim>\<open>read_identifier\<close> consumes nothing, and the loop
  comes back to the same position. No amount of fuel gives a token list.
\<close>

theorem tokenize_percent_diverges: "\<forall>fuel. tokenize fuel ''%'' = None"
  by (simp add: tokenize_def Lexer_def tokenize_loop_percent)


section \<open>Progress of the server's lexer\<close>

lemma pos_le_refl: "pos_le l c l c"
  by (simp add: pos_le_def)

lemma pos_le_trans: "pos_le l c l' c' \<Longrightarrow> pos_le l' c' l'' c'' \<Longrightarrow> pos_le l c l'' c''"
  by (auto simp: pos_le_def)

lemma advance_facts:
  "line L \<le> line (advance L)"
  "pos_le (line L) (column L) (line (advance L)) (column (advance L))"
  "set (rest (advance L)) \<subseteq> set (rest L)"
  by (cases "rest L"; auto simp: advance_def pos_le_def)+

lemma advance_not_NL:
  "current_char L = Some c \<Longrightarrow> c \<noteq> NL \<Longrightarrow>
   line (advance L) = line L \<and> column (advance L) = column L + 1"
  by (simp add: advance_def)

lemma skip_whitespace_facts:
  "line (skip_whitespace L) = line L \<and> column L \<le> column (skip_whitespace L) \<and>
   set (rest (skip_whitespace L)) \<subseteq> set (rest L)"
proof (induction L rule: skip_whitespace.induct)
  case (1 L)
  show ?case
  proof (cases "current_char L")
    case None
    then show ?thesis by (simp add: skip_whitespace.simps [of L])
  next
    case (Some c)
    show ?thesis
    proof (cases "c = CHR '' '' \<or> c = TAB")
      case True
      with Some have "c \<noteq> NL" by auto
      from advance_not_NL [OF Some this] 1 [OF Some True] advance_facts(3) [of L] Some True
      show ?thesis by (auto simp: skip_whitespace.simps [of L])
    next
      case False
      with Some show ?thesis by (simp add: skip_whitespace.simps [of L])
    qed
  qed
qed

lemma read_string_loop_facts:
  "read_string_loop L v = (v', L') \<Longrightarrow>
   line L \<le> line L' \<and> (line L' = line L \<longrightarrow> column L + length v' \<le> column L' + length v) \<and>
   set (rest L') \<subseteq> set (rest L)"
proof (induction L v rule: read_string_loop.induct)
  case (1 L v)
  show ?case
  proof (cases "current_char L")
    case None
    with 1 show ?thesis by (simp add: read_string_loop.simps [of L])
  next
    case (Some c)
    show ?thesis
    proof (cases "c = QUOTE")
      case True
      note q = this
      have a1: "line (advance L) = line L \<and> column (advance L) = column L + 1"
        using advance_not_NL [OF Some] q by simp
      show ?thesis
      proof (cases "peek L = Some QUOTE")
        case True
        then have cc: "current_char (advance L) = Some QUOTE"
          by (cases "rest L"; cases "tl (rest L)") (auto simp: peek_def current_char_def advance_def split: list.splits if_splits)
        have a2: "line (advance (advance L)) = line L \<and> column (advance (advance L)) = column L + 2"
          using advance_not_NL [OF cc] a1 by simp
        have eq: "read_string_loop (advance (advance L)) (v @ [QUOTE]) = (v', L')"
          using "1.prems" Some q True by (simp add: read_string_loop.simps [of L])
        from "1.IH"(1) [OF Some q True eq] a2 advance_facts(3) [of L] advance_facts(3) [of "advance L"]
        show ?thesis by auto
      next
        case False
        with "1.prems" Some q have "v' = v" "L' = advance L"
          by (simp_all add: read_string_loop.simps [of L])
        with a1 advance_facts(3) [of L] show ?thesis by simp
      qed
    next
      case False
      have eq: "read_string_loop (advance L) (v @ [c]) = (v', L')"
        using "1.prems" Some False by (simp add: read_string_loop.simps [of L])
      have "line (advance L) = line L + 1 \<or> (line (advance L) = line L \<and> column (advance L) = column L + 1)"
        by (simp add: advance_def)
      with "1.IH"(2) [OF Some False eq] advance_facts(3) [of L]
      show ?thesis by auto
    qed
  qed
qed

lemma read_comment_loop_facts:
  "read_comment_loop L v = (v', L') \<Longrightarrow>
   line L \<le> line L' \<and> (line L' = line L \<longrightarrow> column L + length v' \<le> column L' + length v) \<and>
   set (rest L') \<subseteq> set (rest L)"
proof (induction L v rule: read_comment_loop.induct)
  case (1 L v)
  show ?case
  proof (cases "current_char L")
    case None
    with 1 show ?thesis by (simp add: read_comment_loop.simps [of L])
  next
    case (Some c)
    show ?thesis
    proof (cases "c = CHR ''*'' \<and> peek L = Some (CHR ''/'')")
      case True
      have a1: "line (advance L) = line L \<and> column (advance L) = column L + 1"
        using advance_not_NL [OF Some] True by simp
      from True have cc: "current_char (advance L) = Some (CHR ''/'')"
        by (cases "rest L"; cases "tl (rest L)") (auto simp: peek_def current_char_def advance_def split: list.splits if_splits)
      have a2: "line (advance (advance L)) = line L \<and> column (advance (advance L)) = column L + 2"
        using advance_not_NL [OF cc] a1 by simp
      from "1.prems" Some True have "v' = v @ ''*/''" "L' = advance (advance L)"
        by (simp_all add: read_comment_loop.simps [of L])
      with a2 advance_facts(3) [of L] advance_facts(3) [of "advance L"] show ?thesis by auto
    next
      case False
      have eq: "read_comment_loop (advance L) (v @ [c]) = (v', L')"
        using "1.prems" Some False by (auto simp add: read_comment_loop.simps [of L])
      have "line (advance L) = line L + 1 \<or> (line (advance L) = line L \<and> column (advance L) = column L + 1)"
        by (simp add: advance_def)
      with "1.IH" [OF Some False eq] advance_facts(3) [of L]
      show ?thesis by auto
    qed
  qed
qed

lemma not_ident_NL: "\<not> ident_char NL"
  by (simp add: ident_char_def isalnum_def)

lemma read_identifier_loop_facts:
  "read_identifier_loop L v = (v', L') \<Longrightarrow>
   line L' = line L \<and> column L' + length v = column L + length v' \<and>
   set (rest L') \<subseteq> set (rest L) \<and> set v' \<subseteq> set v \<union> set (rest L) \<and>
   (\<forall>x\<in>set v'. x \<in> set v \<or> ident_char x)"
proof (induction L v rule: read_identifier_loop.induct)
  case (1 L v)
  show ?case
  proof (cases "current_char L")
    case None
    with 1 show ?thesis by (simp add: read_identifier_loop.simps [of L])
  next
    case (Some c)
    show ?thesis
    proof (cases "ident_char c")
      case True
      then have "c \<noteq> NL" using not_ident_NL by auto
      note a1 = advance_not_NL [OF Some this]
      have eq: "read_identifier_loop (advance L) (v @ [c]) = (v', L')"
        using "1.prems" Some True by (simp add: read_identifier_loop.simps [of L])
      have "c \<in> set (rest L)" using Some by (cases "rest L") (auto simp: current_char_def)
      with "1.IH" [OF Some True eq] a1 advance_facts(3) [of L] True
      show ?thesis by auto
    next
      case False
      with 1 Some show ?thesis by (simp add: read_identifier_loop.simps [of L])
    qed
  qed
qed

lemma upper_length: "SHARP_S \<notin> set s \<Longrightarrow> length (upper s) = length s"
  by (induction s) (auto simp: upper_def upper_char_def split: option.splits)

lemma progress_advance: "progress L (advance L)"
  by (simp add: progress_def advance_facts)

lemma emits_single:
  assumes "current_char L = Some c" and "c \<noteq> NL"
  shows "emits L (new_Token CONTINUATION [x] (line L) (column L)) (advance L)"
    and "emits L (new_Token LPAREN [x] (line L) (column L)) (advance L)"
    and "emits L (new_Token RPAREN [x] (line L) (column L)) (advance L)"
  using assms by (simp_all add: emits_def new_Token_def pos_le_def advance_def word_type_def)

lemma upper_char_dash: "CHR ''-'' \<in> set (upper_char c) \<Longrightarrow> c = CHR ''-''"
  by (auto simp: upper_char_def upper_table_def split: if_splits)

lemma upper_dash: "CHR ''-'' \<in> set (upper v) \<Longrightarrow> CHR ''-'' \<in> set v"
  by (auto simp: upper_def dest: upper_char_dash)

lemma not_ident_dash: "\<not> ident_char (CHR ''-'')"
  by (simp add: ident_char_def isalnum_def)

lemma read_comment_emits:
  assumes "current_char L = Some (CHR ''/'')" "peek L = Some (CHR ''*'')"
    and "read_comment L = (t, L')"
  shows "progress L L' \<and> emits L t L'"
proof -
  from assms(2) have cc: "current_char (advance L) = Some (CHR ''*'')"
    by (cases "rest L"; cases "tl (rest L)") (auto simp: peek_def current_char_def advance_def split: list.splits if_splits)
  have a1: "line (advance L) = line L \<and> column (advance L) = column L + 1"
    using advance_not_NL [OF assms(1)] by simp
  have a2: "line (advance (advance L)) = line L \<and> column (advance (advance L)) = column L + 2"
    using advance_not_NL [OF cc] a1 by simp
  obtain v where l: "read_comment_loop (advance (advance L)) ''/*'' = (v, L')"
    and t: "t = new_Token COMMENT v (line L) (column L)"
    using assms(3) by (auto simp: read_comment_def split: prod.splits)
  from read_comment_loop_facts [OF l] a2 advance_facts(3) [of L] advance_facts(3) [of "advance L"] t
  show ?thesis
    by (auto simp: progress_def emits_def pos_le_def new_Token_def word_type_def)
qed

lemma read_string_emits:
  assumes "current_char L = Some QUOTE" and "read_string L = (t, L')"
  shows "progress L L' \<and> emits L t L'"
proof -
  have a1: "line (advance L) = line L \<and> column (advance L) = column L + 1"
    using advance_not_NL [OF assms(1)] by simp
  obtain v where l: "read_string_loop (advance L) [] = (v, L')"
    and t: "t = new_Token STRING v (line L) (column L)"
    using assms(2) by (auto simp: read_string_def split: prod.splits)
  from read_string_loop_facts [OF l] a1 advance_facts(3) [of L] t
  show ?thesis
    by (auto simp: progress_def emits_def pos_le_def new_Token_def word_type_def)
qed

lemma read_identifier_emits:
  assumes "read_identifier L = (t, L')"
  shows "progress L L' \<and> emits L t L'"
proof -
  obtain v where l: "read_identifier_loop L [] = (v, L')"
    and t: "tk_line t = line L" "tk_column t = column L"
       "tk_end_column t = column L + length (upper v) \<or> tk_end_column t = column L + length v"
       "tk_value t = upper v \<or> tk_value t = v"
    using assms by (auto simp: read_identifier_def Let_def new_Token_def split: prod.splits if_splits)
  note f = read_identifier_loop_facts [OF l]
  have "SHARP_S \<notin> set (rest L) \<Longrightarrow> length (upper v) = length v"
    using f by (intro upper_length) auto
  moreover have "CHR ''-'' \<notin> set v"
    using f not_ident_dash by auto
  then have "CHR ''-'' \<notin> set (tk_value t)"
    using t(4) upper_dash by auto
  ultimately show ?thesis using f t(1-3)
    by (auto simp: progress_def emits_def pos_le_def)
qed

lemma map_option_Cons_Some:
  "map_option ((#) t) m = Some ts \<Longrightarrow> \<exists>ts'. m = Some ts' \<and> ts = t # ts'"
  by (cases m) auto

lemma tokenize_loop_step:
  assumes "tokenize_loop (Suc n) L = Some ts" and "current_char L = Some c"
  shows "\<exists>L' ts'. tokenize_loop n L' = Some ts' \<and> progress L L' \<and>
           (ts = ts' \<or> (\<exists>t. ts = t # ts' \<and> emits L t L'))"
proof -
  consider (ws) "c = CHR '' '' \<or> c = TAB"
    | (nl) "c = NL"
    | (comment) "c = CHR ''/''" "peek L = Some (CHR ''*'')"
    | (dash) "c = CHR ''-''"
    | (lparen) "c = CHR ''(''"
    | (rparen) "c = CHR '')''"
    | (quote) "c = QUOTE"
    | (ident) "\<not> (c = CHR '' '' \<or> c = TAB)" "c \<noteq> NL" "\<not> (c = CHR ''/'' \<and> peek L = Some (CHR ''*''))"
        "c \<noteq> CHR ''-''" "c \<noteq> CHR ''(''" "c \<noteq> CHR '')''" "c \<noteq> QUOTE" "isalnum c \<or> c \<in> set ''@#$%''"
    | (other) "\<not> (c = CHR '' '' \<or> c = TAB)" "c \<noteq> NL" "\<not> (c = CHR ''/'' \<and> peek L = Some (CHR ''*''))"
        "c \<noteq> CHR ''-''" "c \<noteq> CHR ''(''" "c \<noteq> CHR '')''" "c \<noteq> QUOTE" "\<not> (isalnum c \<or> c \<in> set ''@#$%'')"
    by blast
  then show ?thesis
  proof cases
    case ws
    have "tokenize_loop (Suc n) L = tokenize_loop n (skip_whitespace L)"
      using assms(2) ws by (simp del: set_simps)
    with assms(1) have "tokenize_loop n (skip_whitespace L) = Some ts" by simp
    moreover have "progress L (skip_whitespace L)"
      using skip_whitespace_facts [of L] by (simp add: progress_def pos_le_def)
    ultimately show ?thesis by blast
  next
    case nl
    have "tokenize_loop (Suc n) L = tokenize_loop n (advance L)"
      using assms(2) nl by (simp del: set_simps)
    with assms(1) have "tokenize_loop n (advance L) = Some ts" by simp
    with progress_advance show ?thesis by blast
  next
    case comment
    obtain t L' where r: "read_comment L = (t, L')" by (cases "read_comment L")
    have "tokenize_loop (Suc n) L = map_option ((#) t) (tokenize_loop n L')"
      using assms(2) comment r by (simp del: set_simps)
    with assms(1) obtain ts' where "tokenize_loop n L' = Some ts'" "ts = t # ts'"
      using map_option_Cons_Some by metis
    with read_comment_emits [OF _ comment(2) r] assms(2) comment(1) show ?thesis by blast
  next
    case dash
    then have nn: "c \<noteq> NL" by simp
    let ?t = "new_Token CONTINUATION ''-'' (line L) (column L)"
    have "tokenize_loop (Suc n) L = tokenize_loop n (advance L) \<or>
          tokenize_loop (Suc n) L = map_option ((#) ?t) (tokenize_loop n (advance L))"
      using assms(2) dash by (simp del: set_simps add: Let_def)
    with assms(1) have "tokenize_loop n (advance L) = Some ts \<or>
      (\<exists>ts'. tokenize_loop n (advance L) = Some ts' \<and> ts = ?t # ts')"
      using map_option_Cons_Some by metis
    with emits_single [OF assms(2) nn] progress_advance show ?thesis by blast
  next
    case lparen
    then have nn: "c \<noteq> NL" by simp
    let ?t = "new_Token LPAREN ''('' (line L) (column L)"
    have "tokenize_loop (Suc n) L = map_option ((#) ?t) (tokenize_loop n (advance L))"
      using assms(2) lparen by (simp del: set_simps)
    with assms(1) have "\<exists>ts'. tokenize_loop n (advance L) = Some ts' \<and> ts = ?t # ts'"
      using map_option_Cons_Some by metis
    with emits_single [OF assms(2) nn] progress_advance show ?thesis by blast
  next
    case rparen
    then have nn: "c \<noteq> NL" by simp
    let ?t = "new_Token RPAREN '')'' (line L) (column L)"
    have "tokenize_loop (Suc n) L = map_option ((#) ?t) (tokenize_loop n (advance L))"
      using assms(2) rparen by (simp del: set_simps)
    with assms(1) have "\<exists>ts'. tokenize_loop n (advance L) = Some ts' \<and> ts = ?t # ts'"
      using map_option_Cons_Some by metis
    with emits_single [OF assms(2) nn] progress_advance show ?thesis by blast
  next
    case quote
    obtain t L' where r: "read_string L = (t, L')" by (cases "read_string L")
    have "tokenize_loop (Suc n) L = map_option ((#) t) (tokenize_loop n L')"
      using assms(2) quote r by (simp del: set_simps)
    with assms(1) obtain ts' where "tokenize_loop n L' = Some ts'" "ts = t # ts'"
      using map_option_Cons_Some by metis
    with read_string_emits [OF _ r] assms(2) quote show ?thesis by blast
  next
    case ident
    obtain t L' where r: "read_identifier L = (t, L')" by (cases "read_identifier L")
    have "tokenize_loop (Suc n) L = map_option ((#) t) (tokenize_loop n L')"
      using assms(2) ident r by (cases "c = CHR ''/''") (simp_all del: set_simps)
    with assms(1) obtain ts' where "tokenize_loop n L' = Some ts'" "ts = t # ts'"
      using map_option_Cons_Some by metis
    with read_identifier_emits [OF r] show ?thesis by blast
  next
    case other
    have "tokenize_loop (Suc n) L = tokenize_loop n (advance L)"
      using assms(2) other by (cases "c = CHR ''/''") (simp_all del: set_simps)
    with assms(1) have "tokenize_loop n (advance L) = Some ts" by simp
    with progress_advance show ?thesis by blast
  qed
qed

section \<open>Order of tokens and of command spans\<close>

lemma new_RACFCommand_sel [simp]:
  "cmd_name (new_RACFCommand n l e) = n"
  "cmd_line (new_RACFCommand n l e) = l"
  "cmd_end_line (new_RACFCommand n l e) = e"
  "cmd_arguments (new_RACFCommand n l e) = []"
  "cmd_keywords (new_RACFCommand n l e) = Map.empty"
  "cmd_segments (new_RACFCommand n l e) = Map.empty"
  "cmd_flags (new_RACFCommand n l e) = {}"
  by (simp_all add: new_RACFCommand_def)

lemma tokenize_loop_lines:
  "tokenize_loop n L = Some ts \<Longrightarrow> sorted (line L # map tk_line ts)"
proof (induction n arbitrary: L ts)
  case 0
  then show ?case by simp
next
  case (Suc n)
  show ?case
  proof (cases "current_char L")
    case None
    with Suc.prems show ?thesis by (auto simp: new_Token_def)
  next
    case (Some c)
    from tokenize_loop_step [OF Suc.prems Some] obtain L' ts' where
      s: "tokenize_loop n L' = Some ts'" "progress L L'"
         "ts = ts' \<or> (\<exists>t. ts = t # ts' \<and> emits L t L')"
      by blast
    from Suc.IH [OF s(1)] s(2,3) show ?thesis
      by (fastforce simp: progress_def emits_def)
  qed
qed

lemma ordered_from_mono:
  "ordered_from l' c' ts \<Longrightarrow> pos_le l c l' c' \<Longrightarrow> ordered_from l c ts"
  by (cases ts) (auto intro: pos_le_trans)

lemma tokenize_loop_ordered:
  "tokenize_loop n L = Some ts \<Longrightarrow> SHARP_S \<notin> set (rest L) \<Longrightarrow>
   ordered_from (line L) (column L) ts"
proof (induction n arbitrary: L ts)
  case 0
  then show ?case by simp
next
  case (Suc n)
  show ?case
  proof (cases "current_char L")
    case None
    with Suc.prems show ?thesis by (auto simp: new_Token_def pos_le_def)
  next
    case (Some c)
    from tokenize_loop_step [OF Suc.prems(1) Some] obtain L' ts' where
      s: "tokenize_loop n L' = Some ts'" "progress L L'"
         "ts = ts' \<or> (\<exists>t. ts = t # ts' \<and> emits L t L')"
      by blast
    from s(2) Suc.prems(2) have "SHARP_S \<notin> set (rest L')"
      by (auto simp: progress_def)
    from Suc.IH [OF s(1) this] have o: "ordered_from (line L') (column L') ts'" .
    from s(3) show ?thesis
    proof
      assume "ts = ts'"
      with o s(2) show ?thesis by (auto simp: progress_def intro: ordered_from_mono)
    next
      assume "\<exists>t. ts = t # ts' \<and> emits L t L'"
      then obtain t where t: "ts = t # ts'" "emits L t L'" by blast
      from t(2) Suc.prems(2) have
        "pos_le (tk_line t) (tk_end_column t) (line L') (column L')"
        "tk_line t = line L" "tk_column t = column L" "tk_column t \<le> tk_end_column t"
        by (auto simp: emits_def)
      with o t(1) show ?thesis
        by (auto simp: pos_le_def intro: ordered_from_mono)
    qed
  qed
qed

lemma ordered_from_lower:
  "ordered_from l c ts \<Longrightarrow> t \<in> set ts \<Longrightarrow> pos_le l c (tk_line t) (tk_column t)"
proof (induction ts arbitrary: l c)
  case Nil
  then show ?case by simp
next
  case (Cons a ts)
  show ?case
  proof (cases "t = a")
    case True
    with Cons.prems show ?thesis by simp
  next
    case False
    with Cons.prems have "t \<in> set ts" by simp
    from Cons.IH [OF _ this, of "tk_line a" "tk_end_column a"] Cons.prems(1)
    have "pos_le (tk_line a) (tk_end_column a) (tk_line t) (tk_column t)" by simp
    moreover from Cons.prems(1) have "pos_le l c (tk_line a) (tk_end_column a)"
      by (auto simp: pos_le_def)
    ultimately show ?thesis by (rule pos_le_trans [rotated])
  qed
qed

lemma ordered_from_cover_unique:
  "ordered_from l c ts \<Longrightarrow> t \<in> set ts \<Longrightarrow> u \<in> set ts \<Longrightarrow>
   covers t k ch \<Longrightarrow> covers u k ch \<Longrightarrow> t = u"
proof (induction ts arbitrary: l c)
  case Nil
  then show ?case by simp
next
  case (Cons a ts)
  have later: "\<not> (covers a k ch \<and> covers x k ch)" if "x \<in> set ts" for x
  proof -
    from Cons.prems(1) have "ordered_from (tk_line a) (tk_end_column a) ts" by simp
    from ordered_from_lower [OF this that]
    show ?thesis by (auto simp: pos_le_def covers_def)
  qed
  from Cons.prems(1) have o: "ordered_from (tk_line a) (tk_end_column a) ts" by simp
  show ?case
  proof (cases "t = a")
    case True
    with later [of u] Cons.prems show ?thesis by auto
  next
    case False
    note ta = this
    show ?thesis
    proof (cases "u = a")
      case True
      with later [of t] Cons.prems ta show ?thesis by auto
    next
      case False
      with ta Cons.prems Cons.IH [OF o] show ?thesis by auto
    qed
  qed
qed

lemma token_at_Some: "token_at ts l ch = Some t \<Longrightarrow> t \<in> set ts \<and> covers t l ch"
  by (induction ts) (auto simp: covers_def split: if_splits)

lemma token_at_None: "token_at ts l ch = None \<longleftrightarrow> (\<forall>t\<in>set ts. \<not> covers t l ch)"
  by (induction ts) (auto simp: covers_def)

lemma find_end_bounds:
  "sorted (e # map tk_line ts) \<Longrightarrow>
   e \<le> find_end ts e \<and>
   (\<forall>d\<in>set (parse_commands ts :: RACFCommand list). find_end ts e \<le> cmd_line d)"
proof (induction ts arbitrary: e)
  case Nil
  then show ?case by simp
next
  case (Cons t ts)
  have cl: "\<forall>d\<in>set (parse_commands ts :: RACFCommand list). tk_line t \<le> cmd_line d"
  proof
    fix d
    assume d: "d \<in> set (parse_commands ts)"
    from Cons.prems have "sorted (tk_line t # map tk_line ts)" by simp
    from Cons.IH [OF this] d
    have "tk_line t \<le> find_end ts (tk_line t)" "find_end ts (tk_line t) \<le> cmd_line d"
      by auto
    then show "tk_line t \<le> cmd_line d" by linarith
  qed
  show ?case
  proof (cases "tk_type t = COMMAND")
    case True
    with Cons.prems cl show ?thesis by auto
  next
    case False
    note nc = this
    show ?thesis
    proof (cases "tk_type t = EOF")
      case True
      with nc Cons.prems cl show ?thesis by fastforce
    next
      case False
      with nc Cons.IH [of "tk_line t"] Cons.prems show ?thesis by auto
    qed
  qed
qed

lemma parse_commands_spans:
  "sorted (map tk_line ts) \<Longrightarrow> spans_ordered (parse_commands ts)"
proof (induction ts)
  case Nil
  then show ?case by simp
next
  case (Cons t ts)
  then have "sorted (tk_line t # map tk_line ts)" by simp
  from find_end_bounds [OF this] Cons show ?case by auto
qed

lemma parse_commands_fields:
  "map cmd_name (parse_commands ts) = map tk_value (filter (\<lambda>t. tk_type t = COMMAND) ts) \<and>
   map cmd_line (parse_commands ts) = map tk_line (filter (\<lambda>t. tk_type t = COMMAND) ts) \<and>
   (\<forall>c\<in>set (parse_commands ts). cmd_arguments c = [] \<and> cmd_keywords c = Map.empty \<and>
      cmd_segments c = Map.empty \<and> cmd_flags c = {})"
  by (induction ts) auto

lemma command_at_None: "command_at cs l = None \<longleftrightarrow> (\<forall>c\<in>set cs. \<not> contains_line c l)"
  by (induction cs) (auto simp: contains_line_def)

lemma command_at_Some:
  "command_at cs l = Some c \<Longrightarrow>
   \<exists>i<length cs. cs ! i = c \<and> contains_line c l \<and> (\<forall>j<i. \<not> contains_line (cs ! j) l)"
proof (induction cs)
  case Nil
  then show ?case by simp
next
  case (Cons a cs)
  show ?case
  proof (cases "contains_line a l")
    case True
    with Cons.prems have "c = a" by (auto simp: contains_line_def split: if_splits)
    with True show ?thesis by (intro exI [of _ 0]) simp
  next
    case False
    with Cons.prems have "command_at cs l = Some c"
      by (auto simp: contains_line_def split: if_splits)
    from Cons.IH [OF this] obtain i where
      i: "i < length cs" "cs ! i = c" "contains_line c l" "\<forall>j<i. \<not> contains_line (cs ! j) l"
      by blast
    have "\<forall>j<Suc i. \<not> contains_line ((a # cs) ! j) l"
      using False i(4) by (auto simp: less_Suc_eq_0_disj)
    with i show ?thesis by (intro exI [of _ "Suc i"]) simp
  qed
qed

section \<open>The document index\<close>

lemma tokenize_sorted:
  "tokenize fuel content = Some toks \<Longrightarrow> sorted (map tk_line toks)"
  using tokenize_loop_lines [of fuel "Lexer content" toks] by (simp add: tokenize_def)

lemma tokenize_ordered:
  "tokenize fuel content = Some toks \<Longrightarrow> SHARP_S \<notin> set content \<Longrightarrow> ordered_from 0 0 toks"
  using tokenize_loop_ordered [of fuel "Lexer content" toks] by (simp add: tokenize_def Lexer_def)

lemma RACFDocument_Some:
  "RACFDocument fuel uri content = Some doc \<Longrightarrow>
   tokenize fuel content = Some (doc_tokens doc) \<and>
   doc_commands doc = parse_commands (doc_tokens doc)"
  by (auto simp: RACFDocument_def split: option.splits)

lemma spans_ordered_le:
  "spans_ordered cs \<Longrightarrow> c \<in> set cs \<Longrightarrow> cmd_line c \<le> cmd_end_line c"
  by (induction cs) auto

lemma parse_commands_names:
  "map cmd_name (parse_commands ts) = map tk_value (filter is_command ts) \<and>
   map cmd_line (parse_commands ts) = map tk_line (filter is_command ts)"
  by (induction ts) (auto simp: is_command_def)

text \<open>
  C1, as the code has it. Building a document runs no structured parser: there is one
  command per \<^verbatim>\<open>COMMAND\<close> token, in source order, with the token's value as name and its
  line as start line; the start line is not after the end line, and the arguments,
  keywords, segments and flags of every command are empty.
\<close>

theorem document_commands_unparsed:
  assumes "RACFDocument fuel uri content = Some doc"
  shows "map cmd_name (doc_commands doc) = map tk_value (filter is_command (doc_tokens doc)) \<and>
         map cmd_line (doc_commands doc) = map tk_line (filter is_command (doc_tokens doc)) \<and>
         (\<forall>c\<in>set (doc_commands doc).
            cmd_line c \<le> cmd_end_line c \<and> cmd_arguments c = [] \<and>
            cmd_keywords c = Map.empty \<and> cmd_segments c = Map.empty \<and> cmd_flags c = {})"
proof -
  from RACFDocument_Some [OF assms] have
    t: "tokenize fuel content = Some (doc_tokens doc)" and
    c: "doc_commands doc = parse_commands (doc_tokens doc)"
    by simp_all
  from tokenize_sorted [OF t] have "spans_ordered (parse_commands (doc_tokens doc))"
    by (rule parse_commands_spans)
  with c spans_ordered_le parse_commands_names [of "doc_tokens doc"]
    parse_commands_fields [of "doc_tokens doc"]
  show ?thesis by auto
qed

lemma tokenize_two_commands:
  "tokenize 20 two_commands_source = Some two_commands_tokens"
  by code_simp

lemma RACFDocument_two_commands:
  "RACFDocument 20 [] two_commands_source = Some two_commands_doc"
  by (simp add: RACFDocument_def tokenize_two_commands two_commands_doc_def)
    (simp add: two_commands_source_def two_commands_tokens_def new_Token_def)

text \<open>The document of a two-line source with two commands.\<close>

theorem document_commands_unparsed_witness:
  "RACFDocument 20 [] two_commands_source = Some two_commands_doc \<and>
   map cmd_name (doc_commands two_commands_doc) = [''AU'', ''LU''] \<and>
   map cmd_line (doc_commands two_commands_doc) = [0, 1]"
  using document_commands_unparsed [OF RACFDocument_two_commands] RACFDocument_two_commands
  by (simp add: two_commands_doc_def two_commands_tokens_def is_command_def new_Token_def)

text \<open>
  C1 as stated fails: in the document of \<^verbatim>\<open>AU (A\<close>, newline, \<^verbatim>\<open>LU (B) SPECIAL\<close> the second
  command is well formed and its flag \<^verbatim>\<open>SPECIAL\<close> is among the tokens, yet the command's
  flags are empty.
\<close>

theorem document_second_command_unparsed:
  "RACFDocument 20 [] two_commands_source = Some two_commands_doc \<and>
   doc_tokens two_commands_doc ! 7 = new_Token KEYWORD ''SPECIAL'' 1 7 \<and>
   doc_commands two_commands_doc ! 1 = new_RACFCommand ''LU'' 1 1 \<and>
   cmd_flags (doc_commands two_commands_doc ! 1) = {}"
  using RACFDocument_two_commands
  by (simp add: two_commands_doc_def two_commands_tokens_def)

lemma tokenize_same_line: "tokenize 4 same_line_source = Some same_line_tokens"
  by code_simp

lemma RACFDocument_same_line: "RACFDocument 4 [] same_line_source = Some same_line_doc"
  by (simp add: RACFDocument_def tokenize_same_line same_line_doc_def)
    (simp add: same_line_source_def same_line_tokens_def new_Token_def)

lemma tokenize_eszett: "tokenize 3 eszett_source = Some eszett_tokens"
  by code_simp

lemma RACFDocument_eszett: "RACFDocument 3 [] eszett_source = Some eszett_doc"
  by (simp add: RACFDocument_def tokenize_eszett eszett_doc_def)
    (simp add: eszett_source_def eszett_tokens_def new_Token_def)

text \<open>
  C2, as the code has it. The spans of the commands of a document are in source order:
  every span starts no later than it ends, and ends no later than each following span
  starts, so two spans share at most a boundary line. \<^verbatim>\<open>get_command_at_line\<close> returns the
  first command in source order whose span contains the line, and \<^verbatim>\<open>None\<close> exactly when
  no span contains it.
\<close>

theorem command_spans_ordered:
  assumes "RACFDocument fuel uri content = Some doc"
  shows "spans_ordered (doc_commands doc) \<and>
         (get_command_at_line doc l = None \<longleftrightarrow>
            (\<forall>c\<in>set (doc_commands doc). \<not> contains_line c l)) \<and>
         (\<forall>c. get_command_at_line doc l = Some c \<longrightarrow>
            (\<exists>i<length (doc_commands doc). doc_commands doc ! i = c \<and> contains_line c l \<and>
               (\<forall>j<i. \<not> contains_line (doc_commands doc ! j) l)))"
proof -
  from RACFDocument_Some [OF assms] have
    t: "tokenize fuel content = Some (doc_tokens doc)" and
    c: "doc_commands doc = parse_commands (doc_tokens doc)"
    by simp_all
  from tokenize_sorted [OF t] have "spans_ordered (parse_commands (doc_tokens doc))"
    by (rule parse_commands_spans)
  with c have "spans_ordered (doc_commands doc)" by simp
  moreover have "get_command_at_line doc l = None \<longleftrightarrow>
      (\<forall>c\<in>set (doc_commands doc). \<not> contains_line c l)"
    by (simp add: get_command_at_line_def command_at_None)
  moreover have "\<forall>c. get_command_at_line doc l = Some c \<longrightarrow>
      (\<exists>i<length (doc_commands doc). doc_commands doc ! i = c \<and> contains_line c l \<and>
         (\<forall>j<i. \<not> contains_line (doc_commands doc ! j) l))"
    using command_at_Some [of "doc_commands doc" l] by (simp add: get_command_at_line_def)
  ultimately show ?thesis by blast
qed

text \<open>The spans of the two-line document, and two lookups.\<close>

theorem command_spans_ordered_witness:
  "RACFDocument 20 [] two_commands_source = Some two_commands_doc \<and>
   spans_ordered (doc_commands two_commands_doc) \<and>
   get_command_at_line two_commands_doc 1 = Some (new_RACFCommand ''LU'' 1 1) \<and>
   get_command_at_line two_commands_doc 2 = None"
  using command_spans_ordered [OF RACFDocument_two_commands, of 1] RACFDocument_two_commands
  by (simp add: two_commands_doc_def get_command_at_line_def)

text \<open>
  C2 as stated fails: two commands on one line, \<^verbatim>\<open>AU LU\<close>, have the same span, line 0 to
  line 0; both contain line 0 and the lookup returns the first.
\<close>

theorem command_spans_share_line:
  "RACFDocument 4 [] same_line_source = Some same_line_doc \<and>
   doc_commands same_line_doc = [new_RACFCommand ''AU'' 0 0, new_RACFCommand ''LU'' 0 0] \<and>
   contains_line (new_RACFCommand ''AU'' 0 0) 0 \<and>
   contains_line (new_RACFCommand ''LU'' 0 0) 0 \<and>
   get_command_at_line same_line_doc 0 = Some (new_RACFCommand ''AU'' 0 0)"
  using RACFDocument_same_line
  by (simp add: same_line_doc_def contains_line_def get_command_at_line_def)

lemma token_at_covering:
  assumes "ordered_from l0 c0 ts" and "t \<in> set ts" and "covers t l ch"
  shows "token_at ts l ch = Some t"
proof (cases "token_at ts l ch")
  case None
  with assms(2,3) token_at_None [of ts l ch] show ?thesis by blast
next
  case (Some x)
  from token_at_Some [OF Some] have "x \<in> set ts" "covers x l ch" by simp_all
  from ordered_from_cover_unique [OF assms(1) this(1) assms(2) this(2) assms(3)] Some
  show ?thesis by simp
qed

text \<open>
  C4, as the code has it. For a source text without the character U+00DF, whose upper-case
  form is two characters long, every position is covered by at most one token of the
  document, comments included; \<^verbatim>\<open>get_token_at_position\<close> returns that token, and \<^verbatim>\<open>None\<close>
  exactly when no token covers the position.
\<close>

theorem token_at_position_unique:
  assumes "RACFDocument fuel uri content = Some doc" and "SHARP_S \<notin> set content"
  shows "(\<forall>t\<in>set (doc_tokens doc). \<forall>u\<in>set (doc_tokens doc).
            covers t l ch \<and> covers u l ch \<longrightarrow> t = u) \<and>
         (\<forall>t. get_token_at_position doc l ch = Some t \<longleftrightarrow>
            t \<in> set (doc_tokens doc) \<and> covers t l ch) \<and>
         (get_token_at_position doc l ch = None \<longleftrightarrow>
            (\<forall>t\<in>set (doc_tokens doc). \<not> covers t l ch))"
proof -
  from RACFDocument_Some [OF assms(1)] have
    t: "tokenize fuel content = Some (doc_tokens doc)" by simp
  note o = tokenize_ordered [OF t assms(2)]
  have a: "\<forall>t\<in>set (doc_tokens doc). \<forall>u\<in>set (doc_tokens doc).
      covers t l ch \<and> covers u l ch \<longrightarrow> t = u"
    using ordered_from_cover_unique [OF o] by blast
  have b: "\<forall>t. get_token_at_position doc l ch = Some t \<longleftrightarrow>
      t \<in> set (doc_tokens doc) \<and> covers t l ch"
  proof (intro allI iffI)
    fix t
    assume "get_token_at_position doc l ch = Some t"
    then show "t \<in> set (doc_tokens doc) \<and> covers t l ch"
      unfolding get_token_at_position_def by (rule token_at_Some)
  next
    fix t
    assume "t \<in> set (doc_tokens doc) \<and> covers t l ch"
    then show "get_token_at_position doc l ch = Some t"
      unfolding get_token_at_position_def using token_at_covering [OF o] by blast
  qed
  have c: "get_token_at_position doc l ch = None \<longleftrightarrow>
      (\<forall>t\<in>set (doc_tokens doc). \<not> covers t l ch)"
    unfolding get_token_at_position_def by (rule token_at_None)
  from a b c show ?thesis by (intro conjI)
qed

text \<open>Two lookups in the two-line document: inside a word, and in white space.\<close>

theorem token_at_position_unique_witness:
  "RACFDocument 20 [] two_commands_source = Some two_commands_doc \<and>
   SHARP_S \<notin> set two_commands_source \<and>
   get_token_at_position two_commands_doc 1 4 = Some (new_Token IDENTIFIER ''B'' 1 4) \<and>
   get_token_at_position two_commands_doc 1 6 = None"
  using token_at_position_unique [OF RACFDocument_two_commands, of 1 4] RACFDocument_two_commands
  by (simp add: two_commands_doc_def two_commands_tokens_def two_commands_source_def
      get_token_at_position_def new_Token_def)

text \<open>
  C4 as stated fails: the source U+00DF U+00DF \<^verbatim>\<open>(\<close> gives an identifier token with the
  value \<^verbatim>\<open>SSSS\<close> and the span 0 to 4, and a left parenthesis at column 2. Both cover
  line 0, column 2.
\<close>

theorem token_spans_overlap:
  "RACFDocument 3 [] eszett_source = Some eszett_doc \<and>
   doc_tokens eszett_doc ! 0 = new_Token IDENTIFIER ''SSSS'' 0 0 \<and>
   doc_tokens eszett_doc ! 1 = new_Token LPAREN ''('' 0 2 \<and>
   covers (new_Token IDENTIFIER ''SSSS'' 0 0) 0 2 \<and>
   covers (new_Token LPAREN ''('' 0 2) 0 2 \<and>
   get_token_at_position eszett_doc 0 2 = Some (new_Token IDENTIFIER ''SSSS'' 0 0)"
  using RACFDocument_eszett
  by (simp add: eszett_doc_def eszett_tokens_def covers_def get_token_at_position_def
      new_Token_def)


section \<open>String literals\<close>

lemma escape_quotes_simps [simp]:
  "escape_quotes [] = []"
  "escape_quotes (c # s) = (if c = QUOTE then QUOTE # QUOTE # escape_quotes s else c # escape_quotes s)"
  by (simp_all add: escape_quotes_def)

lemma read_string_loop_literal:
  "rest L = escape_quotes S @ [QUOTE] \<Longrightarrow>
   \<exists>L'. read_string_loop L v = (v @ S, L') \<and> rest L' = []"
proof (induction S arbitrary: L v)
  case Nil
  then show ?case
    by (simp add: read_string_loop.simps [of L] current_char_def peek_def advance_def)
next
  case (Cons c S)
  show ?case
  proof (cases "c = QUOTE")
    case True
    with Cons.prems have r: "rest L = QUOTE # QUOTE # escape_quotes S @ [QUOTE]" by simp
    then have "rest (advance (advance L)) = escape_quotes S @ [QUOTE]"
      by (simp add: advance_def current_char_def)
    from Cons.IH [OF this, of "v @ [QUOTE]"] r True show ?thesis
      by (simp add: read_string_loop.simps [of L] current_char_def peek_def)
  next
    case False
    with Cons.prems have r: "rest L = c # escape_quotes S @ [QUOTE]" by simp
    then have "rest (advance L) = escape_quotes S @ [QUOTE]"
      by (simp add: advance_def current_char_def)
    from Cons.IH [OF this, of "v @ [c]"] r False show ?thesis
      by (simp add: read_string_loop.simps [of L] current_char_def)
  qed
qed

lemma ex_read_string_loop_literal:
  "rest L = escape_quotes S @ [QUOTE] \<Longrightarrow>
   \<exists>L'. ex_read_string_loop L v = (v @ S, L') \<and> rest L' = []"
proof (induction S arbitrary: L v)
  case Nil
  then show ?case
    by (simp add: ex_read_string_loop.simps [of L] current_char_def peek_def ex_advance_def)
next
  case (Cons c S)
  show ?case
  proof (cases "c = QUOTE")
    case True
    with Cons.prems have r: "rest L = QUOTE # QUOTE # escape_quotes S @ [QUOTE]" by simp
    then have "rest (ex_advance (ex_advance L)) = escape_quotes S @ [QUOTE]"
      by (simp add: ex_advance_def current_char_def)
    from Cons.IH [OF this, of "v @ [QUOTE]"] r True show ?thesis
      by (simp add: ex_read_string_loop.simps [of L] current_char_def peek_def)
  next
    case False
    with Cons.prems have r: "rest L = c # escape_quotes S @ [QUOTE]" by simp
    then have "rest (ex_advance L) = escape_quotes S @ [QUOTE]"
      by (simp add: ex_advance_def current_char_def)
    from Cons.IH [OF this, of "v @ [c]"] r False show ?thesis
      by (simp add: ex_read_string_loop.simps [of L] current_char_def)
  qed
qed

lemma tokenize_literal:
  "\<exists>l c. tokenize (Suc (Suc n)) (QUOTE # escape_quotes S @ [QUOTE]) =
     Some [new_Token STRING S 0 0, new_Token EOF [] l c]"
proof -
  let ?L = "Lexer (QUOTE # escape_quotes S @ [QUOTE])"
  have "rest (advance ?L) = escape_quotes S @ [QUOTE]"
    by (simp add: Lexer_def advance_def current_char_def)
  from read_string_loop_literal [OF this, of "[]"] obtain L' where
    l: "read_string_loop (advance ?L) [] = (S, L')" "rest L' = []" by auto
  then have "read_string ?L = (new_Token STRING S 0 0, L')"
    by (simp add: read_string_def Lexer_def)
  moreover have "current_char ?L = Some QUOTE" by (simp add: Lexer_def current_char_def)
  moreover have "current_char L' = None" using l(2) by (simp add: current_char_def)
  ultimately have "tokenize_loop (Suc (Suc n)) ?L =
      Some [new_Token STRING S 0 0, new_Token EOF [] (line L') (column L')]"
    by simp
  then show ?thesis by (auto simp: tokenize_def)
qed

lemma ex_tokenize_literal:
  "\<exists>l c. ex_tokenize (QUOTE # escape_quotes S @ [QUOTE]) =
     [new_ex_Token ex_STRING S 1 1, new_ex_Token ex_EOF [] l c]"
proof -
  let ?L = "ex_Lexer (QUOTE # escape_quotes S @ [QUOTE])"
  have "rest (ex_advance ?L) = escape_quotes S @ [QUOTE]"
    by (simp add: ex_Lexer_def ex_advance_def current_char_def)
  from ex_read_string_loop_literal [OF this, of "[]"] obtain L' where
    l: "ex_read_string_loop (ex_advance ?L) [] = (S, L')" "rest L' = []" by auto
  then have "ex_read_string ?L = (new_ex_Token ex_STRING S 1 1, L')"
    by (simp add: ex_read_string_def ex_Lexer_def)
  moreover have "current_char ?L = Some QUOTE" by (simp add: ex_Lexer_def current_char_def)
  moreover have "current_char L' = None" using l(2) by (simp add: current_char_def)
  ultimately have "ex_tokenize_loop ?L =
      [new_ex_Token ex_STRING S 1 1, new_ex_Token ex_EOF [] (line L') (column L')]"
    by (simp add: ex_tokenize_loop.simps [of ?L] ex_tokenize_loop.simps [of L'] ex_space_def)
  then show ?thesis by (auto simp: ex_tokenize_def)
qed

text \<open>
  C6. For every string \<open>S\<close>, with or without quote characters, both lexers turn the
  literal made of a quote, \<open>S\<close> with its quotes doubled, and a quote into one \<^verbatim>\<open>STRING\<close>
  token whose value is \<open>S\<close> itself, case kept, followed by the end-of-input token. A
  doubled quote inside the literal is read as one quote character.
\<close>

theorem quoted_literal_roundtrip:
  "(\<exists>l c. tokenize (Suc (Suc n)) (QUOTE # escape_quotes S @ [QUOTE]) =
      Some [new_Token STRING S 0 0, new_Token EOF [] l c]) \<and>
   (\<exists>l c. ex_tokenize (QUOTE # escape_quotes S @ [QUOTE]) =
      [new_ex_Token ex_STRING S 1 1, new_ex_Token ex_EOF [] l c])"
  using tokenize_literal ex_tokenize_literal by blast


section \<open>The example parser\<close>

lemma current_token_at_pos: "current P = token_at_pos (tokens P) (pos P)"
  by (simp add: token_at_pos_def current_def)

lemma current_advance_token_at_pos:
  "current (advance_p P) = token_at_pos (tokens P) (Suc (pos P))"
  by (simp add: token_at_pos_def current_def advance_p_def)

lemma before_lparenI:
  assumes "ex_type (current P) = ex_KEYWORD" and "ex_type (current (advance_p P)) = ex_LPAREN"
  shows "before_lparen (tokens P) (ex_value (current P))"
proof -
  from assms(1) have "ex_type (token_at_pos (tokens P) (pos P)) = ex_KEYWORD"
    by (simp only: current_token_at_pos)
  moreover from assms(2) have "ex_type (token_at_pos (tokens P) (Suc (pos P))) = ex_LPAREN"
    by (simp only: current_advance_token_at_pos)
  moreover have "ex_value (token_at_pos (tokens P) (pos P)) = ex_value (current P)"
    by (simp only: current_token_at_pos)
  ultimately show ?thesis unfolding before_lparen_def by blast
qed

lemma tokens_advance_p [simp]: "tokens (advance_p P) = tokens P"
  by (simp add: advance_p_def)

lemma expect_tokens: "expect ty P = Inr (t, P') \<Longrightarrow> tokens P' = tokens P"
  by (auto simp: expect_def split: if_splits)

lemma value_list_loop_tokens:
  "value_list_loop n P vs = Some (vs', P') \<Longrightarrow> tokens P' = tokens P"
proof (induction n arbitrary: P vs)
  case 0
  then show ?case by simp
next
  case (Suc n)
  then show ?case by (auto split: if_splits)
qed

lemma parse_value_list_tokens:
  assumes "parse_value_list n P = Some (Inr (vs, P'))"
  shows "tokens P' = tokens P"
proof -
  from assms obtain t1 P1 where e1: "expect ex_LPAREN P = Inr (t1, P1)"
    by (cases "expect ex_LPAREN P") (auto simp: parse_value_list_def)
  with assms obtain vs2 P2 where l: "value_list_loop n P1 [] = Some (vs2, P2)"
    by (cases "value_list_loop n P1 []") (auto simp: parse_value_list_def)
  with assms e1 obtain t3 where e3: "expect ex_RPAREN P2 = Inr (t3, P')"
    by (cases "expect ex_RPAREN P2") (auto simp: parse_value_list_def)
  from expect_tokens [OF e1] value_list_loop_tokens [OF l] expect_tokens [OF e3]
  show ?thesis by simp
qed

lemma parse_single_value_tokens:
  assumes "parse_single_value n P = Some (Inr (v, P'))"
  shows "tokens P' = tokens P"
proof -
  from assms obtain vs where "parse_value_list n P = Some (Inr (vs, P'))"
    by (auto simp: parse_single_value_def split: option.splits sum.splits)
  then show ?thesis by (rule parse_value_list_tokens)
qed


lemma set_keyword_sel [simp]:
  "seg_name (set_keyword s k v) = seg_name s"
  "seg_keywords (set_keyword s k v) = (seg_keywords s)(k \<mapsto> v)"
  by (simp_all add: set_keyword_def)

lemma seg_ok_refl: "seg_ok toks seg seg"
  by (simp add: seg_ok_def)

lemma seg_ok_flag:
  "seg_ok toks (set_keyword seg kw VTrue) s \<Longrightarrow> kw \<in> set FLAG_KEYWORDS \<Longrightarrow> seg_ok toks seg s"
  unfolding seg_ok_def by (auto split: if_splits)

lemma seg_ok_value:
  "seg_ok toks (set_keyword seg kw v) s \<Longrightarrow> kw \<notin> set FLAG_KEYWORDS \<Longrightarrow>
   before_lparen toks kw \<Longrightarrow> seg_ok toks seg s"
  unfolding seg_ok_def by (auto split: if_splits)

lemma parse_segment_loop_Suc:
  "parse_segment_loop (Suc n) P segment =
     (if ex_type (current P) = ex_RPAREN then Some (Inr (segment, P))
      else if ex_type (current P) = ex_KEYWORD
      then (if ex_value (current P) \<in> set FLAG_KEYWORDS
            then parse_segment_loop n (advance_p P) (set_keyword segment (ex_value (current P)) VTrue)
            else if ex_type (current (advance_p P)) = ex_LPAREN
            then (if ex_value (current P) \<in> set SEGMENT_NAMES
                  then (case parse_segment n (ex_value (current P)) (advance_p P) of
                          None \<Rightarrow> None
                        | Some (Inl e) \<Rightarrow> Some (Inl e)
                        | Some (Inr (s, P2)) \<Rightarrow>
                            parse_segment_loop n P2
                              (set_keyword segment (ex_value (current P)) (VSegment s)))
                  else (case parse_single_value n (advance_p P) of
                          None \<Rightarrow> None
                        | Some (Inl e) \<Rightarrow> Some (Inl e)
                        | Some (Inr (v, P2)) \<Rightarrow>
                            parse_segment_loop n P2 (set_keyword segment (ex_value (current P)) v)))
            else parse_segment_loop n (advance_p P) segment)
      else if ex_type (current P) = ex_EOF then Some (Inr (segment, P))
      else parse_segment_loop n (advance_p P) segment)"
  by (simp add: Let_def)

lemma parse_segment_inv:
  "(\<forall>name P s P'. parse_segment n name P = Some (Inr (s, P')) \<longrightarrow>
      tokens P' = tokens P \<and> seg_ok (tokens P) (Segment name Map.empty) s) \<and>
   (\<forall>P seg s P'. parse_segment_loop n P seg = Some (Inr (s, P')) \<longrightarrow>
      tokens P' = tokens P \<and> seg_ok (tokens P) seg s)"
proof (induction n)
  case 0
  show ?case by simp
next
  case (Suc n)
  from Suc have IH1: "\<And>name P s P'. parse_segment n name P = Some (Inr (s, P')) \<Longrightarrow>
      tokens P' = tokens P \<and> seg_ok (tokens P) (Segment name Map.empty) s"
    and IH2: "\<And>P seg s P'. parse_segment_loop n P seg = Some (Inr (s, P')) \<Longrightarrow>
      tokens P' = tokens P \<and> seg_ok (tokens P) seg s"
    by blast+
  have A: "tokens P' = tokens P \<and> seg_ok (tokens P) (Segment name Map.empty) s"
    if a: "parse_segment (Suc n) name P = Some (Inr (s, P'))" for name P s P'
  proof -
    from a obtain t1 P1 where e1: "expect ex_LPAREN P = Inr (t1, P1)"
      by (cases "expect ex_LPAREN P") auto
    with a obtain P2 where l: "parse_segment_loop n P1 (Segment name Map.empty) = Some (Inr (s, P2))"
      and e3: "\<exists>t3. expect ex_RPAREN P2 = Inr (t3, P')"
      by (auto split: option.splits sum.splits prod.splits)
    from e3 obtain t3 where e3': "expect ex_RPAREN P2 = Inr (t3, P')" by blast
    from expect_tokens [OF e1] IH2 [OF l] expect_tokens [OF e3']
    show ?thesis by simp
  qed
  have B: "tokens P' = tokens P \<and> seg_ok (tokens P) seg s"
    if b: "parse_segment_loop (Suc n) P seg = Some (Inr (s, P'))" for P seg s P'
  proof -
    let ?kw = "ex_value (current P)"
    let ?P1 = "advance_p P"
    consider (rparen) "ex_type (current P) = ex_RPAREN"
      | (flag) "ex_type (current P) = ex_KEYWORD" "?kw \<in> set FLAG_KEYWORDS"
      | (seg) "ex_type (current P) = ex_KEYWORD" "?kw \<notin> set FLAG_KEYWORDS"
          "ex_type (current ?P1) = ex_LPAREN" "?kw \<in> set SEGMENT_NAMES"
      | (val) "ex_type (current P) = ex_KEYWORD" "?kw \<notin> set FLAG_KEYWORDS"
          "ex_type (current ?P1) = ex_LPAREN" "?kw \<notin> set SEGMENT_NAMES"
      | (bare) "ex_type (current P) = ex_KEYWORD" "?kw \<notin> set FLAG_KEYWORDS"
          "ex_type (current ?P1) \<noteq> ex_LPAREN"
      | (eof) "ex_type (current P) = ex_EOF"
      | (other) "ex_type (current P) \<noteq> ex_RPAREN" "ex_type (current P) \<noteq> ex_KEYWORD"
          "ex_type (current P) \<noteq> ex_EOF"
      by blast
    then show ?thesis
    proof cases
      case rparen
      with b have "s = seg" "P' = P" by (simp_all add: parse_segment_loop_Suc)
      then show ?thesis by (simp add: seg_ok_refl)
    next
      case flag
      with b have "parse_segment_loop n ?P1 (set_keyword seg ?kw VTrue) = Some (Inr (s, P'))"
        by (simp add: parse_segment_loop_Suc)
      from IH2 [OF this] flag(2) show ?thesis by (auto intro: seg_ok_flag)
    next
      case seg
      from b seg obtain s2 P2 where
        c: "parse_segment n ?kw ?P1 = Some (Inr (s2, P2))" and
        l: "parse_segment_loop n P2 (set_keyword seg ?kw (VSegment s2)) = Some (Inr (s, P'))"
        by (auto simp: Let_def split: option.splits sum.splits prod.splits)
      from IH1 [OF c] have t2: "tokens P2 = tokens P" by simp
      from IH2 [OF l] t2 before_lparenI [OF seg(1,3)] seg(2) show ?thesis
        by (auto intro: seg_ok_value)
    next
      case val
      from b val obtain v P2 where
        c: "parse_single_value n ?P1 = Some (Inr (v, P2))" and
        l: "parse_segment_loop n P2 (set_keyword seg ?kw v) = Some (Inr (s, P'))"
        by (auto simp: Let_def split: option.splits sum.splits prod.splits)
      from parse_single_value_tokens [OF c] have t2: "tokens P2 = tokens P" by simp
      from IH2 [OF l] t2 before_lparenI [OF val(1,3)] val(2) show ?thesis
        by (auto intro: seg_ok_value)
    next
      case bare
      with b have "parse_segment_loop n ?P1 seg = Some (Inr (s, P'))"
        by (simp add: parse_segment_loop_Suc)
      from IH2 [OF this] show ?thesis by simp
    next
      case eof
      with b have "s = seg" "P' = P" by (simp_all add: parse_segment_loop_Suc)
      then show ?thesis by (simp add: seg_ok_refl)
    next
      case other
      with b have "parse_segment_loop n ?P1 seg = Some (Inr (s, P'))"
        by (simp add: parse_segment_loop_Suc)
      from IH2 [OF this] show ?thesis by simp
    qed
  qed
  from A B show ?case by blast
qed

lemma parse_segment_ok:
  "parse_segment n name P = Some (Inr (s, P')) \<Longrightarrow>
   tokens P' = tokens P \<and> seg_ok (tokens P) (Segment name Map.empty) s"
  using parse_segment_inv [of n] by blast

lemma parse_segment_loop_ok:
  "parse_segment_loop n P seg = Some (Inr (s, P')) \<Longrightarrow>
   tokens P' = tokens P \<and> seg_ok (tokens P) seg s"
  using parse_segment_inv [of n] by blast

lemma cmd_ok_refl: "cmd_ok toks cmd cmd"
  by (simp add: cmd_ok_def)

lemma cmd_ok_flag:
  "cmd_ok toks (cmd\<lparr>au_flags := insert kw (au_flags cmd)\<rparr>) c \<Longrightarrow> kw \<in> set FLAG_KEYWORDS \<Longrightarrow>
   cmd_ok toks cmd c"
  unfolding cmd_ok_def by auto

lemma cmd_ok_segment:
  "cmd_ok toks (cmd\<lparr>au_segments := (au_segments cmd)(kw \<mapsto> s)\<rparr>) c \<Longrightarrow>
   kw \<notin> set FLAG_KEYWORDS \<Longrightarrow> kw \<in> set SEGMENT_NAMES \<Longrightarrow> cmd_ok toks cmd c"
  unfolding cmd_ok_def by (auto split: if_splits)

lemma cmd_ok_value:
  "cmd_ok toks (cmd\<lparr>au_keywords := (au_keywords cmd)(kw \<mapsto> v)\<rparr>) c \<Longrightarrow>
   kw \<notin> set FLAG_KEYWORDS \<Longrightarrow> kw \<notin> set SEGMENT_NAMES \<Longrightarrow> before_lparen toks kw \<Longrightarrow>
   cmd_ok toks cmd c"
  unfolding cmd_ok_def by (auto split: if_splits)

lemma parse_loop_Suc:
  "parse_loop (Suc n) P cmd =
     (if ex_type (current P) = ex_EOF then Some (Inr cmd)
      else if ex_type (current P) = ex_KEYWORD
      then (if ex_value (current P) \<in> set FLAG_KEYWORDS
            then parse_loop n (advance_p P)
                   (cmd\<lparr>au_flags := insert (ex_value (current P)) (au_flags cmd)\<rparr>)
            else if ex_value (current P) \<in> set SEGMENT_NAMES
            then (case parse_segment n (ex_value (current P)) (advance_p P) of
                    None \<Rightarrow> None
                  | Some (Inl e) \<Rightarrow> Some (Inl e)
                  | Some (Inr (s, P2)) \<Rightarrow>
                      parse_loop n P2
                        (cmd\<lparr>au_segments := (au_segments cmd)(ex_value (current P) \<mapsto> s)\<rparr>))
            else if ex_type (current (advance_p P)) = ex_LPAREN
            then (case parse_single_value n (advance_p P) of
                    None \<Rightarrow> None
                  | Some (Inl e) \<Rightarrow> Some (Inl e)
                  | Some (Inr (v, P2)) \<Rightarrow>
                      parse_loop n P2
                        (cmd\<lparr>au_keywords := (au_keywords cmd)(ex_value (current P) \<mapsto> v)\<rparr>))
            else parse_loop n (advance_p P) cmd)
      else parse_loop n (advance_p P) cmd)"
  by (simp add: Let_def)

lemma parse_loop_ok:
  "parse_loop n P cmd = Some (Inr c) \<Longrightarrow> cmd_ok (tokens P) cmd c"
proof (induction n arbitrary: P cmd)
  case 0
  then show ?case by simp
next
  case (Suc n)
  note b = Suc.prems
  let ?kw = "ex_value (current P)"
  let ?P1 = "advance_p P"
  consider (eof) "ex_type (current P) = ex_EOF"
    | (flag) "ex_type (current P) = ex_KEYWORD" "?kw \<in> set FLAG_KEYWORDS"
    | (seg) "ex_type (current P) = ex_KEYWORD" "?kw \<notin> set FLAG_KEYWORDS"
        "?kw \<in> set SEGMENT_NAMES"
    | (val) "ex_type (current P) = ex_KEYWORD" "?kw \<notin> set FLAG_KEYWORDS"
        "?kw \<notin> set SEGMENT_NAMES" "ex_type (current ?P1) = ex_LPAREN"
    | (bare) "ex_type (current P) = ex_KEYWORD" "?kw \<notin> set FLAG_KEYWORDS"
        "?kw \<notin> set SEGMENT_NAMES" "ex_type (current ?P1) \<noteq> ex_LPAREN"
    | (other) "ex_type (current P) \<noteq> ex_EOF" "ex_type (current P) \<noteq> ex_KEYWORD"
    by blast
  then show ?case
  proof cases
    case eof
    with b have "c = cmd" by (simp add: parse_loop_Suc)
    then show ?thesis by (simp add: cmd_ok_refl)
  next
    case flag
    with b have "parse_loop n ?P1 (cmd\<lparr>au_flags := insert ?kw (au_flags cmd)\<rparr>) = Some (Inr c)"
      by (simp add: parse_loop_Suc)
    from Suc.IH [OF this] flag(2) show ?thesis by (auto intro: cmd_ok_flag)
  next
    case seg
    from b seg obtain s P2 where
      c: "parse_segment n ?kw ?P1 = Some (Inr (s, P2))" and
      l: "parse_loop n P2 (cmd\<lparr>au_segments := (au_segments cmd)(?kw \<mapsto> s)\<rparr>) = Some (Inr c)"
      by (auto simp: Let_def split: option.splits sum.splits prod.splits)
    from parse_segment_ok [OF c] have t2: "tokens P2 = tokens P" by simp
    from Suc.IH [OF l] t2 seg(2,3) show ?thesis by (auto intro: cmd_ok_segment)
  next
    case val
    from b val obtain v P2 where
      c: "parse_single_value n ?P1 = Some (Inr (v, P2))" and
      l: "parse_loop n P2 (cmd\<lparr>au_keywords := (au_keywords cmd)(?kw \<mapsto> v)\<rparr>) = Some (Inr c)"
      by (auto simp: Let_def split: option.splits sum.splits prod.splits)
    from parse_single_value_tokens [OF c] have t2: "tokens P2 = tokens P" by simp
    from Suc.IH [OF l] t2 val(2,3) before_lparenI [OF val(1,4)] show ?thesis
      by (auto intro: cmd_ok_value)
  next
    case bare
    with b have "parse_loop n ?P1 cmd = Some (Inr c)" by (simp add: parse_loop_Suc)
    from Suc.IH [OF this] show ?thesis by simp
  next
    case other
    with b have "parse_loop n ?P1 cmd = Some (Inr c)" by (simp add: parse_loop_Suc)
    from Suc.IH [OF this] show ?thesis by simp
  qed
qed

lemma parse_ok:
  assumes "parse n P = Some (Inr c)"
  shows "au_flags c \<subseteq> set FLAG_KEYWORDS \<and>
         (\<forall>kw\<in>dom (au_keywords c).
            kw \<notin> set FLAG_KEYWORDS \<and> kw \<notin> set SEGMENT_NAMES \<and> before_lparen (tokens P) kw) \<and>
         (\<forall>kw\<in>dom (au_segments c). kw \<notin> set FLAG_KEYWORDS \<and> kw \<in> set SEGMENT_NAMES)"
proof -
  from assms obtain vs P1 where
    v: "parse_value_list n (advance_p P) = Some (Inr (vs, P1))" and
    l: "parse_loop n P1 (new_AddUserCommand\<lparr>au_userids := vs\<rparr>) = Some (Inr c)"
    by (auto simp: parse_def split: if_splits option.splits sum.splits prod.splits)
  from parse_value_list_tokens [OF v] have "tokens P1 = tokens P" by simp
  with parse_loop_ok [OF l] show ?thesis
    by (auto simp: cmd_ok_def new_AddUserCommand_def)
qed


text \<open>
  C10. When the parser reads a keyword that is neither a flag nor a segment name and the
  next token is not a left parenthesis, the loop of \<^verbatim>\<open>parse\<close> and the loop of
  \<^verbatim>\<open>parse_segment\<close> go on from the next token with the command, or the segment, unchanged:
  the outcome from the keyword is the outcome from the token after it, whatever that is.
  Over a whole parse, a keyword that is neither a flag nor a segment name and never stands
  directly before a left parenthesis has no entry in the keywords, the flags or the
  segments of the command.
\<close>

theorem bare_keyword_ignored:
  assumes "tokens P \<noteq> []" and "ex_type (current P) = ex_KEYWORD"
    and "ex_value (current P) \<notin> set FLAG_KEYWORDS"
    and "ex_value (current P) \<notin> set SEGMENT_NAMES"
    and "ex_type (current (advance_p P)) \<noteq> ex_LPAREN"
  shows "parse_loop (Suc n) P cmd = parse_loop n (advance_p P) cmd \<and>
         parse_segment_loop (Suc n) P segment = parse_segment_loop n (advance_p P) segment \<and>
         (\<forall>c kw. parse m Q = Some (Inr c) \<and> kw \<notin> set FLAG_KEYWORDS \<and>
            kw \<notin> set SEGMENT_NAMES \<and> \<not> before_lparen (tokens Q) kw \<longrightarrow>
            au_keywords c kw = None \<and> kw \<notin> au_flags c \<and> au_segments c kw = None)"
proof (intro conjI allI impI)
  show "parse_loop (Suc n) P cmd = parse_loop n (advance_p P) cmd"
    using assms by (simp add: parse_loop_Suc)
  show "parse_segment_loop (Suc n) P segment = parse_segment_loop n (advance_p P) segment"
    using assms by (simp add: parse_segment_loop_Suc)
next
  fix c kw
  assume a: "parse m Q = Some (Inr c) \<and> kw \<notin> set FLAG_KEYWORDS \<and>
     kw \<notin> set SEGMENT_NAMES \<and> \<not> before_lparen (tokens Q) kw"
  then have p: "parse m Q = Some (Inr c)" by simp
  note ok = parse_ok [OF p]
  from ok a show "au_keywords c kw = None" by (meson domIff)
  from ok a show "kw \<notin> au_flags c" by blast
  from ok a show "au_segments c kw = None" by (meson domIff)
qed

text \<open>
  C7, as the code has it. In every parse that returns a command: a flag keyword puts its
  name in the flags of the command and adds no entry to its keywords, and inside a segment
  it is stored as \<^verbatim>\<open>True\<close>; a keyword that is not a flag and is followed by a left
  parenthesis is stored in the keywords of the command, or in its segments when the keyword
  is a segment name, or in the keywords of the enclosing segment, and is not added to the
  flags. The flags of a parsed command hold flag keywords only and its keywords hold none.
\<close>

theorem flag_value_disjoint:
  "(ex_type (current P) = ex_KEYWORD \<and> ex_value (current P) \<in> set FLAG_KEYWORDS \<longrightarrow>
      (\<forall>c. parse_loop (Suc n) P cmd = Some (Inr c) \<longrightarrow>
         ex_value (current P) \<in> au_flags c \<and>
         (au_keywords cmd (ex_value (current P)) = None \<longrightarrow>
          au_keywords c (ex_value (current P)) = None)) \<and>
      (\<forall>s P'. parse_segment_loop (Suc n) P seg = Some (Inr (s, P')) \<longrightarrow>
         seg_keywords s (ex_value (current P)) = Some VTrue)) \<and>
   (ex_type (current P) = ex_KEYWORD \<and> ex_value (current P) \<notin> set FLAG_KEYWORDS \<and>
    ex_type (current (advance_p P)) = ex_LPAREN \<longrightarrow>
      (\<forall>c. parse_loop (Suc n) P cmd = Some (Inr c) \<longrightarrow>
         (if ex_value (current P) \<in> set SEGMENT_NAMES
          then ex_value (current P) \<in> dom (au_segments c)
          else ex_value (current P) \<in> dom (au_keywords c)) \<and>
         (ex_value (current P) \<notin> au_flags cmd \<longrightarrow> ex_value (current P) \<notin> au_flags c)) \<and>
      (\<forall>s P'. parse_segment_loop (Suc n) P seg = Some (Inr (s, P')) \<longrightarrow>
         ex_value (current P) \<in> dom (seg_keywords s))) \<and>
   (\<forall>c. parse m Q = Some (Inr c) \<longrightarrow>
      au_flags c \<subseteq> set FLAG_KEYWORDS \<and> dom (au_keywords c) \<inter> set FLAG_KEYWORDS = {} \<and>
      dom (au_keywords c) \<inter> au_flags c = {})"
proof -
  let ?kw = "ex_value (current P)"
  let ?P1 = "advance_p P"
  have flag_top: "?kw \<in> au_flags c \<and> (au_keywords cmd ?kw = None \<longrightarrow> au_keywords c ?kw = None)"
    if "ex_type (current P) = ex_KEYWORD" "?kw \<in> set FLAG_KEYWORDS"
      "parse_loop (Suc n) P cmd = Some (Inr c)" for c
  proof -
    from that have "parse_loop n ?P1 (cmd\<lparr>au_flags := insert ?kw (au_flags cmd)\<rparr>) = Some (Inr c)"
      by (simp add: parse_loop_Suc)
    from parse_loop_ok [OF this] have ok:
      "insert ?kw (au_flags cmd) \<subseteq> au_flags c"
      "\<forall>kw\<in>dom (au_keywords c). kw \<in> dom (au_keywords cmd) \<or> kw \<notin> set FLAG_KEYWORDS"
      unfolding cmd_ok_def by auto
    from ok(1) have "?kw \<in> au_flags c" by simp
    moreover have "au_keywords c ?kw = None" if "au_keywords cmd ?kw = None"
    proof (rule ccontr)
      assume "au_keywords c ?kw \<noteq> None"
      then have "?kw \<in> dom (au_keywords c)" by (simp add: domIff)
      with ok(2) \<open>?kw \<in> set FLAG_KEYWORDS\<close> have "?kw \<in> dom (au_keywords cmd)" by blast
      with that show False by (simp add: domIff)
    qed
    ultimately show ?thesis by blast
  qed
  have flag_seg: "seg_keywords s ?kw = Some VTrue"
    if "ex_type (current P) = ex_KEYWORD" "?kw \<in> set FLAG_KEYWORDS"
      "parse_segment_loop (Suc n) P seg = Some (Inr (s, P'))" for s P'
  proof -
    from that have "parse_segment_loop n ?P1 (set_keyword seg ?kw VTrue) = Some (Inr (s, P'))"
      by (simp add: parse_segment_loop_Suc)
    from parse_segment_loop_ok [OF this] that(2) show ?thesis
      unfolding seg_ok_def by simp
  qed
  have val_top: "(if ?kw \<in> set SEGMENT_NAMES then ?kw \<in> dom (au_segments c)
        else ?kw \<in> dom (au_keywords c)) \<and> (?kw \<notin> au_flags cmd \<longrightarrow> ?kw \<notin> au_flags c)"
    if k: "ex_type (current P) = ex_KEYWORD" "?kw \<notin> set FLAG_KEYWORDS"
      "ex_type (current ?P1) = ex_LPAREN" and b: "parse_loop (Suc n) P cmd = Some (Inr c)" for c
  proof (cases "?kw \<in> set SEGMENT_NAMES")
    case True
    with b k obtain s P2 where
      "parse_loop n P2 (cmd\<lparr>au_segments := (au_segments cmd)(?kw \<mapsto> s)\<rparr>) = Some (Inr c)"
      by (auto simp: Let_def split: option.splits sum.splits prod.splits)
    from parse_loop_ok [OF this] True k(2) show ?thesis
      unfolding cmd_ok_def by auto
  next
    case False
    with b k obtain v P2 where
      "parse_loop n P2 (cmd\<lparr>au_keywords := (au_keywords cmd)(?kw \<mapsto> v)\<rparr>) = Some (Inr c)"
      by (auto simp: Let_def split: option.splits sum.splits prod.splits)
    from parse_loop_ok [OF this] False k(2) show ?thesis
      unfolding cmd_ok_def by auto
  qed
  have val_seg: "?kw \<in> dom (seg_keywords s)"
    if k: "ex_type (current P) = ex_KEYWORD" "?kw \<notin> set FLAG_KEYWORDS"
      "ex_type (current ?P1) = ex_LPAREN"
      and b: "parse_segment_loop (Suc n) P seg = Some (Inr (s, P'))" for s P'
  proof -
    from b k obtain v P2 where
      "parse_segment_loop n P2 (set_keyword seg ?kw v) = Some (Inr (s, P'))"
      by (auto simp: Let_def split: option.splits sum.splits prod.splits if_splits)
    from parse_segment_loop_ok [OF this] show ?thesis
      unfolding seg_ok_def by auto
  qed
  have glob: "au_flags c \<subseteq> set FLAG_KEYWORDS \<and> dom (au_keywords c) \<inter> set FLAG_KEYWORDS = {} \<and>
      dom (au_keywords c) \<inter> au_flags c = {}" if "parse m Q = Some (Inr c)" for c
    using parse_ok [OF that] by blast
  from flag_top flag_seg val_top val_seg glob show ?thesis by blast
qed


lemma ex_tokenize_nested: "ex_tokenize nested_source = nested_tokens"
  by code_simp

lemma strip_unplaced [simp]: "strip (unplaced p) = p"
  by (simp add: strip_def unplaced_def new_ex_Token_def)

lemma unplaced_sel [simp]:
  "ex_type (unplaced (strip t)) = ex_type t" "ex_value (unplaced (strip t)) = ex_value t"
  by (simp_all add: strip_def unplaced_def new_ex_Token_def)

lemma current_unplace [simp]:
  "ex_type (current (unplace P)) = ex_type (current P)"
  "ex_value (current (unplace P)) = ex_value (current P)"
  by (cases "tokens P = []"; simp add: current_def unplace_def last_map)+

lemma advance_p_unplace [simp]: "advance_p (unplace P) = unplace (advance_p P)"
  by (simp add: advance_p_def unplace_def)

lemma tokens_unplace_empty [simp]: "tokens (unplace P) = [] \<longleftrightarrow> tokens P = []"
  by (simp add: unplace_def)

lemma expect_unplace:
  "expect ty (unplace P) =
     (case expect ty P of Inl e \<Rightarrow> Inl e | Inr (t, P') \<Rightarrow> Inr (current (unplace P), unplace P'))"
  by (simp add: expect_def)

lemma value_list_loop_unplace:
  "value_list_loop n (unplace P) vs =
     map_option (\<lambda>(vs', P'). (vs', unplace P')) (value_list_loop n P vs)"
  by (induction n arbitrary: P vs) simp_all

lemma parse_value_list_unplace:
  "parse_value_list n (unplace P) =
     map_option (map_sum id (\<lambda>(vs, P'). (vs, unplace P'))) (parse_value_list n P)"
  by (simp add: parse_value_list_def expect_unplace value_list_loop_unplace
      split: sum.splits option.splits prod.splits)

lemma parse_single_value_unplace:
  "parse_single_value n (unplace P) =
     map_option (map_sum id (\<lambda>(v, P'). (v, unplace P'))) (parse_single_value n P)"
  by (simp add: parse_single_value_def parse_value_list_unplace
      split: sum.splits option.splits prod.splits)

lemma parse_segment_unplace:
  "(\<forall>name P. parse_segment n name (unplace P) =
      map_option (map_sum id (\<lambda>(s, P'). (s, unplace P'))) (parse_segment n name P)) \<and>
   (\<forall>P seg. parse_segment_loop n (unplace P) seg =
      map_option (map_sum id (\<lambda>(s, P'). (s, unplace P'))) (parse_segment_loop n P seg))"
proof (induction n)
  case 0
  show ?case by simp
next
  case (Suc n)
  then have IH1: "\<And>name P. parse_segment n name (unplace P) =
      map_option (map_sum id (\<lambda>(s, P'). (s, unplace P'))) (parse_segment n name P)"
    and IH2: "\<And>P seg. parse_segment_loop n (unplace P) seg =
      map_option (map_sum id (\<lambda>(s, P'). (s, unplace P'))) (parse_segment_loop n P seg)"
    by blast+
  have A: "parse_segment (Suc n) name (unplace P) =
      map_option (map_sum id (\<lambda>(s, P'). (s, unplace P'))) (parse_segment (Suc n) name P)"
    for name P
    by (simp add: expect_unplace IH2 split: sum.splits option.splits prod.splits)
  have B: "parse_segment_loop (Suc n) (unplace P) seg =
      map_option (map_sum id (\<lambda>(s, P'). (s, unplace P'))) (parse_segment_loop (Suc n) P seg)"
    for P seg
    unfolding parse_segment_loop_Suc
    by (simp add: IH1 IH2 parse_single_value_unplace split: sum.splits option.splits prod.splits)
  from A B show ?case by blast
qed

lemma parse_loop_unplace:
  "parse_loop n (unplace P) cmd = parse_loop n P cmd"
proof (induction n arbitrary: P cmd)
  case 0
  show ?case by simp
next
  case (Suc n)
  show ?case
    unfolding parse_loop_Suc
    using parse_segment_unplace [of n]
    by (simp add: Suc.IH parse_single_value_unplace split: sum.splits option.splits prod.splits)
qed

lemma parse_unplace: "parse n (unplace P) = parse n P"
  by (simp add: parse_def parse_value_list_unplace parse_loop_unplace
      split: sum.splits option.splits prod.splits)

lemma parse_strip_cong:
  assumes "map strip (tokens P) = map strip (tokens P')" and "pos P = pos P'"
  shows "parse n P = parse n P'"
proof -
  from assms(1) have "map (unplaced \<circ> strip) (tokens P) = map (unplaced \<circ> strip) (tokens P')"
    by (metis map_map)
  with assms(2) have "unplace P = unplace P'"
    by (cases P, cases P') (simp add: unplace_def)
  then have "parse n (unplace P) = parse n (unplace P')" by simp
  then show ?thesis by (simp add: parse_unplace)
qed


lemma segment_not_flag: "s \<in> set SEGMENT_NAMES \<Longrightarrow> s \<notin> set FLAG_KEYWORDS"
proof -
  have "\<forall>s\<in>set SEGMENT_NAMES. s \<notin> set FLAG_KEYWORDS"
    by (simp add: SEGMENT_NAMES_def FLAG_KEYWORDS_def)
  then show "s \<in> set SEGMENT_NAMES \<Longrightarrow> s \<notin> set FLAG_KEYWORDS" by blast
qed

lemma strip_filter:
  "map strip (filter not_continuation toks) =
     filter (\<lambda>p. fst p \<noteq> ex_CONTINUATION) (map strip toks)"
  by (induction toks) (simp_all add: not_continuation_def strip_def)

lemma parse_Parser_shape:
  assumes "map strip toks = shape"
  shows "parse n (Parser toks) =
         parse n \<lparr>tokens = map unplaced (filter (\<lambda>p. fst p \<noteq> ex_CONTINUATION) shape), pos = 0\<rparr>"
proof (rule parse_strip_cong)
  show "map strip (tokens (Parser toks)) =
      map strip (tokens \<lparr>tokens = map unplaced (filter (\<lambda>p. fst p \<noteq> ex_CONTINUATION) shape), pos = 0\<rparr>)"
    using assms by (simp add: Parser_def strip_filter comp_def)
  show "pos (Parser toks) =
      pos \<lparr>tokens = map unplaced (filter (\<lambda>p. fst p \<noteq> ex_CONTINUATION) shape), pos = 0\<rparr>"
    by (simp add: Parser_def)
qed

lemmas parser_steps = parse_def current_def advance_p_def
  parse_value_list_def expect_def is_value_def parse_single_value_def
  new_AddUserCommand_def set_keyword_def new_ex_Token_def unplaced_def

text \<open>
  C8, as the code has it. For segment names \<open>a\<close>, \<open>b\<close>, \<open>c\<close> and a keyword token \<open>x\<close>,
  parsing a command followed by \<open>a(b(c(x)))\<close>, with fuel 8 or more, gives a command whose
  segment \<open>a\<close> holds the segment \<open>b\<close>, which holds the segment \<open>c\<close>. When \<open>x\<close> is a flag
  keyword the segment \<open>c\<close> holds \<open>x\<close> as \<^verbatim>\<open>True\<close>; when \<open>x\<close> is not a flag keyword nothing
  is recorded for it and the segment \<open>c\<close> is empty.
\<close>

theorem nested_segments_three_levels:
  assumes "map strip toks = nested_shape u a b c x"
    and "a \<in> set SEGMENT_NAMES" and "b \<in> set SEGMENT_NAMES" and "c \<in> set SEGMENT_NAMES"
    and "8 \<le> n"
  shows "parse n (Parser toks) =
     Some (Inr \<lparr>au_userids = [u], au_keywords = Map.empty,
       au_segments = [a \<mapsto> Segment a
          [b \<mapsto> VSegment (Segment b [c \<mapsto> VSegment (Segment c
             (if x \<in> set FLAG_KEYWORDS then [x \<mapsto> VTrue] else Map.empty))])]],
       au_flags = {}\<rparr>)"
proof -
  define k where "k = n - 8"
  from assms(5) have n: "n = Suc (Suc (Suc (Suc (Suc (Suc (Suc (Suc k)))))))"
    unfolding k_def by linarith
  note nf = segment_not_flag [OF assms(2)] segment_not_flag [OF assms(3)]
    segment_not_flag [OF assms(4)]
  show ?thesis
  proof (cases "x \<in> set FLAG_KEYWORDS")
    case True
    show ?thesis
      unfolding parse_Parser_shape [OF assms(1)] n
      using assms(2-4) nf True
      by (simp add: nested_shape_def parser_steps parse_loop_Suc parse_segment_loop_Suc
          del: parse_loop.simps(2) parse_segment_loop.simps(2))
  next
    case False
    show ?thesis
      unfolding parse_Parser_shape [OF assms(1)] n
      using assms(2-4) nf False
      by (simp add: nested_shape_def parser_steps parse_loop_Suc parse_segment_loop_Suc
          del: parse_loop.simps(2) parse_segment_loop.simps(2))
  qed
qed


lemma ex_tokenize_flag_nested: "ex_tokenize flag_nested_source = flag_nested_tokens"
  by code_simp

lemma ex_tokenize_segment: "ex_tokenize segment_source = segment_tokens"
  by code_simp

lemma ex_tokenize_mixed: "ex_tokenize mixed_source = mixed_tokens"
  by code_simp

lemmas parser_eval = Parser_def not_continuation_def parser_steps eval_nat_numeral
  FLAG_KEYWORDS_def SEGMENT_NAMES_def parse_loop_Suc parse_segment_loop_Suc

text \<open>
  The sources \<^verbatim>\<open>ADDUSER (U) KERB(ENCRYPT(OMVS(AUTOUID)))\<close>, with a flag keyword, and
  \<^verbatim>\<open>ADDUSER (U) KERB(ENCRYPT(OMVS(UID)))\<close>, with a keyword that is not a flag.
\<close>

theorem nested_segments_three_levels_witness:
  "map strip (ex_tokenize flag_nested_source) =
     nested_shape ''U'' ''KERB'' ''ENCRYPT'' ''OMVS'' ''AUTOUID'' \<and>
   map strip (ex_tokenize nested_source) =
     nested_shape ''U'' ''KERB'' ''ENCRYPT'' ''OMVS'' ''UID'' \<and>
   ''KERB'' \<in> set SEGMENT_NAMES \<and> ''ENCRYPT'' \<in> set SEGMENT_NAMES \<and>
   ''OMVS'' \<in> set SEGMENT_NAMES \<and> ''AUTOUID'' \<in> set FLAG_KEYWORDS \<and>
   ''UID'' \<notin> set FLAG_KEYWORDS \<and> (8::nat) \<le> 8 \<and>
   parse_adduser 8 flag_nested_source =
     Some (Inr \<lparr>au_userids = [''U''], au_keywords = Map.empty,
       au_segments = [''KERB'' \<mapsto> Segment ''KERB''
          [''ENCRYPT'' \<mapsto> VSegment (Segment ''ENCRYPT''
             [''OMVS'' \<mapsto> VSegment (Segment ''OMVS'' [''AUTOUID'' \<mapsto> VTrue])])]],
       au_flags = {}\<rparr>) \<and>
   parse_adduser 8 nested_source =
     Some (Inr \<lparr>au_userids = [''U''], au_keywords = Map.empty,
       au_segments = [''KERB'' \<mapsto> Segment ''KERB''
          [''ENCRYPT'' \<mapsto> VSegment (Segment ''ENCRYPT''
             [''OMVS'' \<mapsto> VSegment (Segment ''OMVS'' Map.empty)])]],
       au_flags = {}\<rparr>)"
proof -
  have s: "map strip (ex_tokenize flag_nested_source) =
     nested_shape ''U'' ''KERB'' ''ENCRYPT'' ''OMVS'' ''AUTOUID''"
    by (simp add: ex_tokenize_flag_nested flag_nested_tokens_def nested_shape_def strip_def
        new_ex_Token_def)
  have t: "map strip (ex_tokenize nested_source) =
     nested_shape ''U'' ''KERB'' ''ENCRYPT'' ''OMVS'' ''UID''"
    by (simp add: ex_tokenize_nested nested_tokens_def nested_shape_def strip_def
        new_ex_Token_def)
  have m: "''KERB'' \<in> set SEGMENT_NAMES" "''ENCRYPT'' \<in> set SEGMENT_NAMES"
    "''OMVS'' \<in> set SEGMENT_NAMES"
    by (simp_all add: SEGMENT_NAMES_def)
  have f: "''AUTOUID'' \<in> set FLAG_KEYWORDS" "''UID'' \<notin> set FLAG_KEYWORDS"
    by (simp_all add: FLAG_KEYWORDS_def)
  from nested_segments_three_levels [OF s m, of 8] nested_segments_three_levels [OF t m, of 8]
    s t m f show ?thesis
    by (simp add: parse_adduser_def)
qed

text \<open>
  C8 as stated fails: \<^verbatim>\<open>UID\<close> is a known keyword, and in
  \<^verbatim>\<open>ADDUSER (U) KERB(ENCRYPT(OMVS(UID)))\<close> the innermost segment is empty.
\<close>

theorem nested_valued_keyword_lost:
  "parse_adduser 8 nested_source =
     Some (Inr \<lparr>au_userids = [''U''], au_keywords = Map.empty,
       au_segments = [''KERB'' \<mapsto> Segment ''KERB''
          [''ENCRYPT'' \<mapsto> VSegment (Segment ''ENCRYPT''
             [''OMVS'' \<mapsto> VSegment (Segment ''OMVS'' Map.empty)])]],
       au_flags = {}\<rparr>)"
  unfolding parse_adduser_def ex_tokenize_nested
  by (simp add: nested_tokens_def parser_eval
      del: parse_loop.simps(2) parse_segment_loop.simps(2))

text \<open>
  C7 as stated fails: in \<^verbatim>\<open>ADDUSER (U) OMVS(UID(1))\<close> the keyword \<^verbatim>\<open>OMVS\<close> is not a flag
  and is followed by a left parenthesis, and the keywords of the command stay empty; the
  segment is stored in the segments of the command.
\<close>

theorem segment_keyword_not_in_keywords:
  "parse_adduser 8 segment_source =
     Some (Inr \<lparr>au_userids = [''U''], au_keywords = Map.empty,
       au_segments = [''OMVS'' \<mapsto> Segment ''OMVS'' [''UID'' \<mapsto> VStr ''1'']],
       au_flags = {}\<rparr>)"
  unfolding parse_adduser_def ex_tokenize_segment
  by (simp add: segment_tokens_def parser_eval
      del: parse_loop.simps(2) parse_segment_loop.simps(2))

lemma parse_mixed: "parse_adduser 6 mixed_source = Some (Inr mixed_result)"
  unfolding parse_adduser_def ex_tokenize_mixed
  by (simp add: mixed_tokens_def mixed_result_def parser_eval
      del: parse_loop.simps(2) parse_segment_loop.simps(2))

lemma parse_loop_mixed:
  "parse_loop 5 \<lparr>tokens = mixed_tokens, pos = 4\<rparr> (new_AddUserCommand\<lparr>au_userids := [''U'']\<rparr>) =
     Some (Inr mixed_result)"
  "parse_loop 4 \<lparr>tokens = mixed_tokens, pos = 5\<rparr>
     (new_AddUserCommand\<lparr>au_userids := [''U''], au_flags := {''SPECIAL''}\<rparr>) =
     Some (Inr mixed_result)"
  "parse_loop 2 \<lparr>tokens = mixed_tokens, pos = 9\<rparr> mixed_result = Some (Inr mixed_result)"
  "parse_loop 1 \<lparr>tokens = mixed_tokens, pos = 10\<rparr> mixed_result = Some (Inr mixed_result)"
  by (simp_all add: mixed_tokens_def mixed_result_def parser_eval
      del: parse_loop.simps(2) parse_segment_loop.simps(2))

lemma mixed_current:
  "current \<lparr>tokens = mixed_tokens, pos = 4\<rparr> = new_ex_Token ex_KEYWORD ''SPECIAL'' 1 13"
  "current \<lparr>tokens = mixed_tokens, pos = 5\<rparr> = new_ex_Token ex_KEYWORD ''NAME'' 1 21"
  "current \<lparr>tokens = mixed_tokens, pos = 6\<rparr> = new_ex_Token ex_LPAREN ''('' 1 25"
  "current \<lparr>tokens = mixed_tokens, pos = 9\<rparr> = new_ex_Token ex_KEYWORD ''DATA'' 1 29"
  "current \<lparr>tokens = mixed_tokens, pos = 10\<rparr> = new_ex_Token ex_EOF [] 1 33"
  by (simp_all add: mixed_tokens_def current_def)

lemma ex_tokenize_segment_flag: "ex_tokenize segment_flag_source = segment_flag_tokens"
  by code_simp

lemma ex_tokenize_unclosed:
  "ex_tokenize unclosed_source =
     [new_ex_Token ex_COMMAND ''ADDUSER'' 1 1, new_ex_Token ex_LPAREN ''('' 1 9,
      new_ex_Token ex_IDENTIFIER ''U'' 1 10, new_ex_Token ex_RPAREN '')'' 1 11,
      new_ex_Token ex_KEYWORD ''NAME'' 1 13, new_ex_Token ex_LPAREN ''('' 1 17,
      new_ex_Token ex_IDENTIFIER ''X'' 1 18, new_ex_Token ex_EOF [] 1 19]"
  by code_simp

text \<open>
  A parse need not return a command: in \<^verbatim>\<open>ADDUSER (U) NAME(X\<close> the value list of \<^verbatim>\<open>NAME\<close>
  is not closed and \<^verbatim>\<open>parse\<close> raises \<^verbatim>\<open>SyntaxError\<close>.
\<close>

lemma unclosed_value_raises: "parse_adduser 6 unclosed_source = Some (Inl SyntaxError)"
  unfolding parse_adduser_def ex_tokenize_unclosed
  by (simp add: parser_eval del: parse_loop.simps(2) parse_segment_loop.simps(2))

lemma segment_flag_current:
  "current \<lparr>tokens = segment_flag_tokens, pos = 4\<rparr> = new_ex_Token ex_KEYWORD ''OMVS'' 1 13"
  "current \<lparr>tokens = segment_flag_tokens, pos = 5\<rparr> = new_ex_Token ex_LPAREN ''('' 1 17"
  "current \<lparr>tokens = segment_flag_tokens, pos = 6\<rparr> = new_ex_Token ex_KEYWORD ''AUTOUID'' 1 18"
  "current \<lparr>tokens = segment_flag_tokens, pos = 7\<rparr> = new_ex_Token ex_KEYWORD ''UID'' 1 26"
  "current \<lparr>tokens = segment_flag_tokens, pos = 8\<rparr> = new_ex_Token ex_LPAREN ''('' 1 29"
  by (simp_all add: segment_flag_tokens_def current_def)

lemma parse_segment_flag:
  "parse_loop 6 \<lparr>tokens = segment_flag_tokens, pos = 4\<rparr>
     (new_AddUserCommand\<lparr>au_userids := [''U'']\<rparr>) = Some (Inr segment_flag_result)"
  "parse_segment_loop 4 \<lparr>tokens = segment_flag_tokens, pos = 6\<rparr> (Segment ''OMVS'' Map.empty) =
     Some (Inr (segment_flag_segment, \<lparr>tokens = segment_flag_tokens, pos = 11\<rparr>))"
  "parse_segment_loop 3 \<lparr>tokens = segment_flag_tokens, pos = 7\<rparr>
     (Segment ''OMVS'' [''AUTOUID'' \<mapsto> VTrue]) =
     Some (Inr (segment_flag_segment, \<lparr>tokens = segment_flag_tokens, pos = 11\<rparr>))"
  by (simp_all add: segment_flag_tokens_def segment_flag_result_def segment_flag_segment_def
      parser_eval del: parse_loop.simps(2) parse_segment_loop.simps(2))

text \<open>
  In \<^verbatim>\<open>ADDUSER (U) SPECIAL NAME(X) DATA\<close>: the flag \<^verbatim>\<open>SPECIAL\<close> and the valued keyword
  \<^verbatim>\<open>NAME\<close> of the command. In \<^verbatim>\<open>ADDUSER (U) OMVS(AUTOUID UID(1))\<close>: the segment name
  \<^verbatim>\<open>OMVS\<close> of the command, and the flag \<^verbatim>\<open>AUTOUID\<close> and the valued keyword \<^verbatim>\<open>UID\<close> of
  the segment.
\<close>

theorem flag_value_disjoint_witness:
  "ex_type (current \<lparr>tokens = mixed_tokens, pos = 4\<rparr>) = ex_KEYWORD \<and>
   ex_value (current \<lparr>tokens = mixed_tokens, pos = 4\<rparr>) \<in> set FLAG_KEYWORDS \<and>
   parse_loop (Suc 4) \<lparr>tokens = mixed_tokens, pos = 4\<rparr>
     (new_AddUserCommand\<lparr>au_userids := [''U'']\<rparr>) = Some (Inr mixed_result) \<and>
   ''SPECIAL'' \<in> au_flags mixed_result \<and> au_keywords mixed_result ''SPECIAL'' = None \<and>
   ex_type (current \<lparr>tokens = segment_flag_tokens, pos = 6\<rparr>) = ex_KEYWORD \<and>
   ex_value (current \<lparr>tokens = segment_flag_tokens, pos = 6\<rparr>) \<in> set FLAG_KEYWORDS \<and>
   parse_segment_loop (Suc 3) \<lparr>tokens = segment_flag_tokens, pos = 6\<rparr>
     (Segment ''OMVS'' Map.empty) =
     Some (Inr (segment_flag_segment, \<lparr>tokens = segment_flag_tokens, pos = 11\<rparr>)) \<and>
   seg_keywords segment_flag_segment ''AUTOUID'' = Some VTrue \<and>
   ex_type (current \<lparr>tokens = mixed_tokens, pos = 5\<rparr>) = ex_KEYWORD \<and>
   ex_value (current \<lparr>tokens = mixed_tokens, pos = 5\<rparr>) \<notin> set FLAG_KEYWORDS \<and>
   ex_value (current \<lparr>tokens = mixed_tokens, pos = 5\<rparr>) \<notin> set SEGMENT_NAMES \<and>
   ex_type (current (advance_p \<lparr>tokens = mixed_tokens, pos = 5\<rparr>)) = ex_LPAREN \<and>
   parse_loop (Suc 3) \<lparr>tokens = mixed_tokens, pos = 5\<rparr>
     (new_AddUserCommand\<lparr>au_userids := [''U''], au_flags := {''SPECIAL''}\<rparr>) =
     Some (Inr mixed_result) \<and>
   ''NAME'' \<in> dom (au_keywords mixed_result) \<and> ''NAME'' \<notin> au_flags mixed_result \<and>
   ex_type (current \<lparr>tokens = segment_flag_tokens, pos = 4\<rparr>) = ex_KEYWORD \<and>
   ex_value (current \<lparr>tokens = segment_flag_tokens, pos = 4\<rparr>) \<notin> set FLAG_KEYWORDS \<and>
   ex_value (current \<lparr>tokens = segment_flag_tokens, pos = 4\<rparr>) \<in> set SEGMENT_NAMES \<and>
   ex_type (current (advance_p \<lparr>tokens = segment_flag_tokens, pos = 4\<rparr>)) = ex_LPAREN \<and>
   parse_loop (Suc 5) \<lparr>tokens = segment_flag_tokens, pos = 4\<rparr>
     (new_AddUserCommand\<lparr>au_userids := [''U'']\<rparr>) = Some (Inr segment_flag_result) \<and>
   ''OMVS'' \<in> dom (au_segments segment_flag_result) \<and>
   ''OMVS'' \<notin> au_flags segment_flag_result \<and>
   ex_type (current \<lparr>tokens = segment_flag_tokens, pos = 7\<rparr>) = ex_KEYWORD \<and>
   ex_value (current \<lparr>tokens = segment_flag_tokens, pos = 7\<rparr>) \<notin> set FLAG_KEYWORDS \<and>
   ex_type (current (advance_p \<lparr>tokens = segment_flag_tokens, pos = 7\<rparr>)) = ex_LPAREN \<and>
   parse_segment_loop (Suc 2) \<lparr>tokens = segment_flag_tokens, pos = 7\<rparr>
     (Segment ''OMVS'' [''AUTOUID'' \<mapsto> VTrue]) =
     Some (Inr (segment_flag_segment, \<lparr>tokens = segment_flag_tokens, pos = 11\<rparr>)) \<and>
   ''UID'' \<in> dom (seg_keywords segment_flag_segment) \<and>
   parse 6 (Parser (ex_tokenize mixed_source)) = Some (Inr mixed_result) \<and>
   au_flags mixed_result \<subseteq> set FLAG_KEYWORDS \<and>
   dom (au_keywords mixed_result) \<inter> au_flags mixed_result = {}"
proof -
  let ?M4 = "\<lparr>tokens = mixed_tokens, pos = 4\<rparr>"
  let ?M5 = "\<lparr>tokens = mixed_tokens, pos = 5\<rparr>"
  let ?S4 = "\<lparr>tokens = segment_flag_tokens, pos = 4\<rparr>"
  let ?S6 = "\<lparr>tokens = segment_flag_tokens, pos = 6\<rparr>"
  let ?S7 = "\<lparr>tokens = segment_flag_tokens, pos = 7\<rparr>"
  let ?S11 = "\<lparr>tokens = segment_flag_tokens, pos = 11\<rparr>"
  let ?U = "new_AddUserCommand\<lparr>au_userids := [''U'']\<rparr>"
  let ?US = "new_AddUserCommand\<lparr>au_userids := [''U''], au_flags := {''SPECIAL''}\<rparr>"
  let ?O = "Segment ''OMVS'' Map.empty"
  let ?OA = "Segment ''OMVS'' [''AUTOUID'' \<mapsto> VTrue]"
  have cur:
    "ex_type (current ?M4) = ex_KEYWORD" "ex_value (current ?M4) = ''SPECIAL''"
    "ex_type (current ?M5) = ex_KEYWORD" "ex_value (current ?M5) = ''NAME''"
    "ex_type (current (advance_p ?M5)) = ex_LPAREN"
    "ex_type (current ?S4) = ex_KEYWORD" "ex_value (current ?S4) = ''OMVS''"
    "ex_type (current (advance_p ?S4)) = ex_LPAREN"
    "ex_type (current ?S6) = ex_KEYWORD" "ex_value (current ?S6) = ''AUTOUID''"
    "ex_type (current ?S7) = ex_KEYWORD" "ex_value (current ?S7) = ''UID''"
    "ex_type (current (advance_p ?S7)) = ex_LPAREN"
    by (simp_all add: mixed_current segment_flag_current advance_p_def new_ex_Token_def)
  have mem:
    "''SPECIAL'' \<in> set FLAG_KEYWORDS" "''AUTOUID'' \<in> set FLAG_KEYWORDS"
    "''NAME'' \<notin> set FLAG_KEYWORDS" "''NAME'' \<notin> set SEGMENT_NAMES"
    "''OMVS'' \<notin> set FLAG_KEYWORDS" "''OMVS'' \<in> set SEGMENT_NAMES"
    "''UID'' \<notin> set FLAG_KEYWORDS"
    by (simp_all add: FLAG_KEYWORDS_def SEGMENT_NAMES_def)
  have run:
    "parse_loop (Suc 4) ?M4 ?U = Some (Inr mixed_result)"
    "parse_loop (Suc 3) ?M5 ?US = Some (Inr mixed_result)"
    "parse_loop (Suc 5) ?S4 ?U = Some (Inr segment_flag_result)"
    "parse_segment_loop (Suc 3) ?S6 ?O = Some (Inr (segment_flag_segment, ?S11))"
    "parse_segment_loop (Suc 2) ?S7 ?OA = Some (Inr (segment_flag_segment, ?S11))"
    "parse 6 (Parser (ex_tokenize mixed_source)) = Some (Inr mixed_result)"
    using parse_loop_mixed(1,2) parse_segment_flag parse_mixed
    by (simp_all add: parse_adduser_def)
  have a: "''SPECIAL'' \<in> au_flags mixed_result \<and> au_keywords mixed_result ''SPECIAL'' = None"
    using flag_value_disjoint [of ?M4 4 ?U ?O 6 "Parser (ex_tokenize mixed_source)"]
      cur mem run(1)
    by (simp add: new_AddUserCommand_def)
  have b: "seg_keywords segment_flag_segment ''AUTOUID'' = Some VTrue"
    using flag_value_disjoint [of ?S6 3 ?U ?O 6 "Parser (ex_tokenize mixed_source)"]
      cur mem run(4)
    by simp
  have c: "''NAME'' \<in> dom (au_keywords mixed_result) \<and> ''NAME'' \<notin> au_flags mixed_result"
    using flag_value_disjoint [of ?M5 3 ?US ?O 6 "Parser (ex_tokenize mixed_source)"]
      cur mem run(2)
    by (simp add: new_AddUserCommand_def)
  have d: "''OMVS'' \<in> dom (au_segments segment_flag_result) \<and>
      ''OMVS'' \<notin> au_flags segment_flag_result"
    using flag_value_disjoint [of ?S4 5 ?U ?O 6 "Parser (ex_tokenize mixed_source)"]
      cur mem run(3)
    by (simp add: new_AddUserCommand_def)
  have e: "''UID'' \<in> dom (seg_keywords segment_flag_segment)"
    using flag_value_disjoint [of ?S7 2 ?U ?OA 6 "Parser (ex_tokenize mixed_source)"]
      cur mem run(5)
    by simp
  have g: "au_flags mixed_result \<subseteq> set FLAG_KEYWORDS \<and>
      dom (au_keywords mixed_result) \<inter> au_flags mixed_result = {}"
    using flag_value_disjoint [of ?M4 4 ?U ?O 6 "Parser (ex_tokenize mixed_source)"] run(6)
    by simp
  from a b c d e g cur mem run show ?thesis by simp
qed

text \<open>The keyword \<^verbatim>\<open>DATA\<close> at the end of \<^verbatim>\<open>ADDUSER (U) SPECIAL NAME(X) DATA\<close>.\<close>

theorem bare_keyword_ignored_witness:
  "tokens \<lparr>tokens = mixed_tokens, pos = 9\<rparr> \<noteq> [] \<and>
   ex_type (current \<lparr>tokens = mixed_tokens, pos = 9\<rparr>) = ex_KEYWORD \<and>
   ex_value (current \<lparr>tokens = mixed_tokens, pos = 9\<rparr>) \<notin> set FLAG_KEYWORDS \<and>
   ex_value (current \<lparr>tokens = mixed_tokens, pos = 9\<rparr>) \<notin> set SEGMENT_NAMES \<and>
   ex_type (current (advance_p \<lparr>tokens = mixed_tokens, pos = 9\<rparr>)) \<noteq> ex_LPAREN \<and>
   parse_loop (Suc 1) \<lparr>tokens = mixed_tokens, pos = 9\<rparr> mixed_result =
     parse_loop 1 (advance_p \<lparr>tokens = mixed_tokens, pos = 9\<rparr>) mixed_result \<and>
   parse_loop 1 (advance_p \<lparr>tokens = mixed_tokens, pos = 9\<rparr>) mixed_result =
     Some (Inr mixed_result) \<and>
   au_keywords mixed_result ''DATA'' = None"
proof -
  let ?P = "\<lparr>tokens = mixed_tokens, pos = 9\<rparr>"
  have h: "tokens ?P \<noteq> []" "ex_type (current ?P) = ex_KEYWORD"
    "ex_value (current ?P) \<notin> set FLAG_KEYWORDS" "ex_value (current ?P) \<notin> set SEGMENT_NAMES"
    "ex_type (current (advance_p ?P)) \<noteq> ex_LPAREN"
    by (simp_all add: mixed_current advance_p_def new_ex_Token_def FLAG_KEYWORDS_def
        SEGMENT_NAMES_def) (simp add: mixed_tokens_def)
  from bare_keyword_ignored [OF h, of 1 mixed_result] h parse_loop_mixed(4) show ?thesis
    by (simp add: advance_p_def mixed_result_def)
qed


section \<open>The example lexer and the text\<close>

lemma current_char_rest: "current_char L = (case rest L of [] \<Rightarrow> None | c # _ \<Rightarrow> Some c)"
  by (simp add: current_char_def)

lemma peek_second: "peek L = second (rest L)"
  by (simp add: peek_def second_def)

lemma ex_skip_whitespace_rest:
  "rest (ex_skip_whitespace L) = dropWhile ex_space (rest L)"
proof (induction L rule: ex_skip_whitespace.induct)
  case (1 L)
  show ?case
  proof (cases "rest L")
    case Nil
    then show ?thesis by (simp add: ex_skip_whitespace.simps [of L] current_char_def)
  next
    case (Cons c cs)
    then have cc: "current_char L = Some c" by (simp add: current_char_def)
    show ?thesis
    proof (cases "ex_space c")
      case True
      with 1 [OF cc True] Cons cc show ?thesis
        by (simp add: ex_skip_whitespace.simps [of L] ex_advance_rest)
    next
      case False
      with Cons cc show ?thesis by (simp add: ex_skip_whitespace.simps [of L])
    qed
  qed
qed

lemma ex_skip_comment_loop_rest:
  "rest (ex_skip_comment_loop L) = after_comment (rest L)"
proof (induction L rule: ex_skip_comment_loop.induct)
  case (1 L)
  show ?case
  proof (cases "rest L")
    case Nil
    then show ?thesis by (simp add: ex_skip_comment_loop.simps [of L] current_char_def)
  next
    case (Cons c cs)
    then have cc: "current_char L = Some c" by (simp add: current_char_def)
    show ?thesis
    proof (cases "c = CHR ''*'' \<and> peek L = Some (CHR ''/'')")
      case True
      then obtain ds where "cs = CHR ''/'' # ds"
        using Cons by (cases cs) (auto simp: peek_def)
      with True Cons cc show ?thesis
        by (simp add: ex_skip_comment_loop.simps [of L] ex_advance_rest)
    next
      case False
      from 1 [OF cc False] have ih: "rest (ex_skip_comment_loop (ex_advance L)) = after_comment cs"
        using Cons by (simp add: ex_advance_rest)
      have "after_comment (c # cs) = after_comment cs"
        using False Cons by (cases cs) (auto simp: peek_def)
      with ih False Cons cc show ?thesis
        by (auto simp: ex_skip_comment_loop.simps [of L])
    qed
  qed
qed

lemma ex_skip_comment_rest:
  "current_char L = Some (CHR ''/'') \<Longrightarrow> peek L = Some (CHR ''*'') \<Longrightarrow>
   rest (ex_skip_comment L) = after_comment (drop 2 (rest L))"
  by (simp add: ex_skip_comment_def ex_skip_comment_loop_rest ex_advance_rest drop_Suc
      numeral_2_eq_2 drop_tl)

lemma ex_read_string_loop_scan:
  "ex_read_string_loop L v = (v', L') \<Longrightarrow>
   v' = v @ fst (scan_string (rest L)) \<and> rest L' = fst (snd (scan_string (rest L)))"
proof (induction L v rule: ex_read_string_loop.induct)
  case (1 L v)
  show ?case
  proof (cases "rest L")
    case Nil
    with 1 show ?thesis by (simp add: ex_read_string_loop.simps [of L] current_char_def)
  next
    case (Cons c cs)
    then have cc: "current_char L = Some c" by (simp add: current_char_def)
    show ?thesis
    proof (cases "c = QUOTE")
      case True
      show ?thesis
      proof (cases "peek L = Some QUOTE")
        case p: True
        then obtain ds where cs: "cs = QUOTE # ds"
          using Cons by (cases cs) (auto simp: peek_def)
        have eq: "ex_read_string_loop (ex_advance (ex_advance L)) (v @ [QUOTE]) = (v', L')"
          using "1.prems" cc True p by (simp add: ex_read_string_loop.simps [of L])
        from "1.IH"(1) [OF cc True p eq] Cons cs True show ?thesis
          by (simp add: ex_advance_rest split: prod.splits)
      next
        case False
        with "1.prems" cc True have "v' = v" "L' = ex_advance L"
          by (simp_all add: ex_read_string_loop.simps [of L])
        moreover have "scan_string (c # cs) = ([], cs, True)"
          using False True Cons by (cases cs) (auto simp: peek_def)
        ultimately show ?thesis using Cons by (simp add: ex_advance_rest)
      qed
    next
      case False
      have eq: "ex_read_string_loop (ex_advance L) (v @ [c]) = (v', L')"
        using "1.prems" cc False by (simp add: ex_read_string_loop.simps [of L])
      from "1.IH"(2) [OF cc False eq] Cons False show ?thesis
        by (simp add: ex_advance_rest split: prod.splits)
    qed
  qed
qed

lemma ex_read_identifier_loop_take:
  "ex_read_identifier_loop L v = (v', L') \<Longrightarrow>
   v' = v @ takeWhile ex_ident_char (rest L) \<and> rest L' = dropWhile ex_ident_char (rest L)"
proof (induction L v rule: ex_read_identifier_loop.induct)
  case (1 L v)
  show ?case
  proof (cases "rest L")
    case Nil
    with 1 show ?thesis by (simp add: ex_read_identifier_loop.simps [of L] current_char_def)
  next
    case (Cons c cs)
    then have cc: "current_char L = Some c" by (simp add: current_char_def)
    show ?thesis
    proof (cases "ex_ident_char c")
      case True
      have eq: "ex_read_identifier_loop (ex_advance L) (v @ [c]) = (v', L')"
        using "1.prems" cc True by (simp add: ex_read_identifier_loop.simps [of L])
      from "1.IH" [OF cc True eq] Cons True show ?thesis by (simp add: ex_advance_rest)
    next
      case False
      with "1.prems" cc Cons show ?thesis by (simp add: ex_read_identifier_loop.simps [of L])
    qed
  qed
qed

lemma strip_new [simp]: "strip (new_ex_Token ty v l c) = (ty, v)"
  by (simp add: strip_def new_ex_Token_def)

lemma ex_read_string_scan:
  assumes "current_char L = Some QUOTE" and "ex_read_string L = (t, L')"
  shows "strip t = (ex_STRING, fst (scan_string (tl (rest L)))) \<and>
         rest L' = fst (snd (scan_string (tl (rest L))))"
proof -
  from assms(2) obtain v where l: "ex_read_string_loop (ex_advance L) [] = (v, L')"
    and t: "t = new_ex_Token ex_STRING v (line L) (column L)"
    by (auto simp: ex_read_string_def split: prod.splits)
  from ex_read_string_loop_scan [OF l] t show ?thesis by (simp add: ex_advance_rest)
qed

lemma read_identifier_or_keyword_word:
  assumes "read_identifier_or_keyword L = (t, L')"
  shows "strip t = word_token (takeWhile ex_ident_char (rest L)) \<and>
         rest L' = dropWhile ex_ident_char (rest L)"
proof -
  from assms obtain v where l: "ex_read_identifier_loop L [] = (v, L')"
    by (auto simp: read_identifier_or_keyword_def split: prod.splits)
  from ex_read_identifier_loop_take [OF l] have
    v: "v = takeWhile ex_ident_char (rest L)" and r: "rest L' = dropWhile ex_ident_char (rest L)"
    by simp_all
  from assms l have "strip t = word_token v"
    by (auto simp: read_identifier_or_keyword_def word_token_def Let_def)
  with v r show ?thesis by simp
qed

lemma ex_tokenize_loop_lexs: "map strip (ex_tokenize_loop L) = lexs (rest L)"
proof (induction L rule: ex_tokenize_loop.induct)
  case (1 L)
  show ?case
  proof (cases "rest L")
    case Nil
    then show ?thesis
      by (simp add: ex_tokenize_loop.simps [of L] lexs.simps [of "[]"] current_char_def)
  next
    case (Cons c cs)
    then have cc: "current_char L = Some c" by (simp add: current_char_def)
    note p = peek_second [of L]
    consider (ws) "ex_space c"
      | (comment) "\<not> ex_space c" "c = CHR ''/'' \<and> peek L = Some (CHR ''*'')"
      | (cont) "\<not> ex_space c" "\<not> (c = CHR ''/'' \<and> peek L = Some (CHR ''*''))"
          "c = CHR ''-'' \<and> (peek L = None \<or> peek L = Some NL \<or> peek L = Some CR)"
      | (lparen) "\<not> ex_space c" "\<not> (c = CHR ''/'' \<and> peek L = Some (CHR ''*''))"
          "\<not> (c = CHR ''-'' \<and> (peek L = None \<or> peek L = Some NL \<or> peek L = Some CR))"
          "c = CHR ''(''"
      | (rparen) "\<not> ex_space c" "\<not> (c = CHR ''/'' \<and> peek L = Some (CHR ''*''))"
          "\<not> (c = CHR ''-'' \<and> (peek L = None \<or> peek L = Some NL \<or> peek L = Some CR))"
          "c \<noteq> CHR ''(''" "c = CHR '')''"
      | (quote) "\<not> ex_space c" "\<not> (c = CHR ''/'' \<and> peek L = Some (CHR ''*''))"
          "\<not> (c = CHR ''-'' \<and> (peek L = None \<or> peek L = Some NL \<or> peek L = Some CR))"
          "c \<noteq> CHR ''(''" "c \<noteq> CHR '')''" "c = QUOTE"
      | (word) "\<not> ex_space c" "\<not> (c = CHR ''/'' \<and> peek L = Some (CHR ''*''))"
          "\<not> (c = CHR ''-'' \<and> (peek L = None \<or> peek L = Some NL \<or> peek L = Some CR))"
          "c \<noteq> CHR ''(''" "c \<noteq> CHR '')''" "c \<noteq> QUOTE" "isalnum c \<or> c \<in> set ''@#$''"
      | (other) "\<not> ex_space c" "\<not> (c = CHR ''/'' \<and> peek L = Some (CHR ''*''))"
          "\<not> (c = CHR ''-'' \<and> (peek L = None \<or> peek L = Some NL \<or> peek L = Some CR))"
          "c \<noteq> CHR ''(''" "c \<noteq> CHR '')''" "c \<noteq> QUOTE" "\<not> (isalnum c \<or> c \<in> set ''@#$'')"
      by blast
    then show ?thesis
    proof cases
      case ws
      have "ex_tokenize_loop L = ex_tokenize_loop (ex_skip_whitespace L)"
        using cc ws by (simp add: ex_tokenize_loop.simps [of L])
      moreover have "lexs (rest L) = lexs (dropWhile ex_space (rest L))"
        using Cons ws by (subst lexs.simps) simp
      ultimately show ?thesis
        using "1.IH"(1) [OF cc ws] by (simp add: ex_skip_whitespace_rest)
    next
      case comment
      have "ex_tokenize_loop L = ex_tokenize_loop (ex_skip_comment L)"
        using cc comment by (simp add: ex_tokenize_loop.simps [of L])
      moreover have "lexs (rest L) = lexs (after_comment (drop 2 (rest L)))"
        using Cons comment p by (subst lexs.simps) simp
      moreover have "rest (ex_skip_comment L) = after_comment (drop 2 (rest L))"
        using cc comment by (intro ex_skip_comment_rest) simp_all
      ultimately show ?thesis
        using "1.IH"(2) [OF cc comment] by simp
    next
      case cont
      have "ex_tokenize_loop L =
          new_ex_Token ex_CONTINUATION ''-'' (line L) (column L) # ex_tokenize_loop (ex_advance L)"
        using cc cont by (simp add: ex_tokenize_loop.simps [of L])
      moreover have "lexs (rest L) = (ex_CONTINUATION, ''-'') # lexs cs"
        using Cons cont p by (subst lexs.simps) (simp add: ex_space_def)
      ultimately show ?thesis
        using "1.IH"(3) [OF cc cont] Cons by (simp add: ex_advance_rest)
    next
      case lparen
      have "ex_tokenize_loop L =
          new_ex_Token ex_LPAREN ''('' (line L) (column L) # ex_tokenize_loop (ex_advance L)"
        using cc lparen by (simp add: ex_tokenize_loop.simps [of L])
      moreover have "lexs (rest L) = (ex_LPAREN, ''('') # lexs cs"
        using Cons lparen p by (subst lexs.simps) simp
      ultimately show ?thesis
        using "1.IH"(4) [OF cc lparen] Cons by (simp add: ex_advance_rest)
    next
      case rparen
      have "ex_tokenize_loop L =
          new_ex_Token ex_RPAREN '')'' (line L) (column L) # ex_tokenize_loop (ex_advance L)"
        using cc rparen by (simp add: ex_tokenize_loop.simps [of L])
      moreover have "lexs (rest L) = (ex_RPAREN, '')'') # lexs cs"
        using Cons rparen p by (subst lexs.simps) simp
      ultimately show ?thesis
        using "1.IH"(5) [OF cc rparen] Cons by (simp add: ex_advance_rest)
    next
      case quote
      obtain t L' where r: "ex_read_string L = (t, L')" by (cases "ex_read_string L")
      obtain v q b where sc: "scan_string cs = (v, q, b)" by (cases "scan_string cs")
      have "ex_tokenize_loop L = t # ex_tokenize_loop L'"
        using cc quote r by (auto simp: ex_tokenize_loop.simps [of L])
      moreover have "lexs (rest L) = (ex_STRING, v) # lexs q"
        using Cons quote p sc by (subst lexs.simps) simp
      moreover have "strip t = (ex_STRING, v)" "rest L' = q"
        using ex_read_string_scan [OF _ r] cc quote Cons sc by simp_all
      ultimately show ?thesis
        using "1.IH"(6) [OF cc quote r [symmetric]] by simp
    next
      case word
      obtain t L' where r: "read_identifier_or_keyword L = (t, L')"
        by (cases "read_identifier_or_keyword L")
      have "ex_tokenize_loop L = t # ex_tokenize_loop L'"
        using cc word r by (auto simp: ex_tokenize_loop.simps [of L])
      moreover have "lexs (rest L) =
          word_token (takeWhile ex_ident_char (rest L)) # lexs (dropWhile ex_ident_char (rest L))"
        using Cons word p by (subst lexs.simps) auto
      ultimately show ?thesis
        using "1.IH"(7) [OF cc word r [symmetric]] read_identifier_or_keyword_word [OF r]
        by simp
    next
      case other
      have "ex_tokenize_loop L = ex_tokenize_loop (ex_advance L)"
        using cc other by (auto simp: ex_tokenize_loop.simps [of L])
      moreover have "lexs (rest L) = lexs cs"
        using Cons other p by (subst lexs.simps) auto
      ultimately show ?thesis
        using "1.IH"(8) [OF cc other] Cons by (simp add: ex_advance_rest)
    qed
  qed
qed

lemma ex_tokenize_lexs: "map strip (ex_tokenize s) = lexs s"
  by (simp add: ex_tokenize_def ex_tokenize_loop_lexs ex_Lexer_def)

lemma second_simps [simp]:
  "second [] = None" "second [c] = None" "second (c # d # cs) = Some d"
  by (simp_all add: second_def)

lemma lexs_space: "ex_space c \<Longrightarrow> lexs (c # cs) = lexs (dropWhile ex_space cs)"
  by (subst lexs.simps) simp

lemma lexs_dropWhile_space: "lexs (dropWhile ex_space s) = lexs s"
proof (cases s)
  case Nil
  then show ?thesis by simp
next
  case (Cons c cs)
  then show ?thesis by (cases "ex_space c") (simp_all add: lexs_space)
qed

lemma lexs_comment: "lexs (CHR ''/'' # CHR ''*'' # cs) = lexs (after_comment cs)"
  by (subst lexs.simps) (simp add: ex_space_def)

lemma folded_dash: "folded (CHR ''-'' # cs) = folded cs"
  unfolding folded_def by (subst lexs.simps) (auto simp: ex_space_def isalnum_def)

lemma lexs_lparen: "lexs (CHR ''('' # cs) = (ex_LPAREN, ''('') # lexs cs"
  by (subst lexs.simps) (simp add: ex_space_def)

lemma lexs_rparen: "lexs (CHR '')'' # cs) = (ex_RPAREN, '')'') # lexs cs"
  by (subst lexs.simps) (simp add: ex_space_def)

lemma lexs_quote:
  "scan_string cs = (v, r, b) \<Longrightarrow> lexs (QUOTE # cs) = (ex_STRING, v) # lexs r"
  by (subst lexs.simps) (simp add: ex_space_def)

lemma word_start_facts:
  assumes "word_start c"
  shows "\<not> ex_space c" "c \<noteq> CHR ''/''" "c \<noteq> CHR ''-''" "c \<noteq> CHR ''(''" "c \<noteq> CHR '')''"
    "c \<noteq> QUOTE" "ex_ident_char c"
  using assms by (auto simp: word_start_def ex_space_def isalnum_def ex_ident_char_def)

lemma lexs_word:
  "word_start c \<Longrightarrow>
   lexs (c # cs) = word_token (takeWhile ex_ident_char (c # cs)) # lexs (dropWhile ex_ident_char (c # cs))"
  using word_start_facts [of c]
  by (subst lexs.simps) (simp add: word_start_def)

lemma lexs_other:
  "\<not> ex_space c \<Longrightarrow> \<not> (c = CHR ''/'' \<and> second (c # cs) = Some (CHR ''*'')) \<Longrightarrow>
   c \<noteq> CHR ''-'' \<Longrightarrow> c \<noteq> CHR ''('' \<Longrightarrow> c \<noteq> CHR '')'' \<Longrightarrow> c \<noteq> QUOTE \<Longrightarrow>
   \<not> word_start c \<Longrightarrow> lexs (c # cs) = lexs cs"
  by (subst lexs.simps) (auto simp: word_start_def)

lemma open_string_Nil [simp]: "\<not> open_string []"
  by (subst open_string.simps) simp

lemma open_string_comment:
  "open_string (CHR ''/'' # CHR ''*'' # cs) = open_string (after_comment cs)"
  by (subst open_string.simps) simp

lemma open_string_quote:
  "scan_string cs = (v, r, b) \<Longrightarrow> open_string (QUOTE # cs) = (if b then open_string r else True)"
  by (subst open_string.simps) simp

lemma open_string_other:
  "c \<noteq> QUOTE \<Longrightarrow> \<not> (c = CHR ''/'' \<and> second (c # cs) = Some (CHR ''*'')) \<Longrightarrow>
   open_string (c # cs) = open_string cs"
  by (subst open_string.simps) auto

lemma open_string_skip:
  "\<forall>x\<in>set xs. x \<noteq> QUOTE \<and> x \<noteq> CHR ''/'' \<Longrightarrow> open_string (xs @ ys) = open_string ys"
  by (induction xs) (simp_all add: open_string_other)

lemma after_comment_skip: "c \<noteq> CHR ''*'' \<Longrightarrow> after_comment (c # s) = after_comment s"
  by (cases s) simp_all

lemma after_comment_closed:
  "comment_closed s \<Longrightarrow> after_comment (s @ t) = after_comment s @ t"
  by (induction s rule: comment_closed.induct) auto

lemma after_comment_open:
  "\<not> comment_closed s \<Longrightarrow> y \<noteq> CHR ''/'' \<Longrightarrow> y \<noteq> CHR ''*'' \<Longrightarrow>
   after_comment (s @ y # t) = after_comment t"
proof (induction s rule: comment_closed.induct, goal_cases)
  case (1 c d cs)
  then show ?case by auto
next
  case 2
  then show ?case by (simp add: after_comment_skip)
next
  case (3 v)
  then show ?case by (cases "v = CHR ''*''") (simp_all add: after_comment_skip)
qed

lemma scan_string_append:
  "scan_string s = (v, r, True) \<Longrightarrow> t = [] \<or> hd t \<noteq> QUOTE \<Longrightarrow>
   scan_string (s @ t) = (v, r @ t, True)"
proof (induction s arbitrary: v r rule: scan_string.induct)
  case 1
  then show ?case by simp
next
  case (2 c cs)
  show ?case
  proof (cases "c = QUOTE")
    case True
    show ?thesis
    proof (cases cs)
      case Nil
      with 2 True show ?thesis by (cases t) auto
    next
      case (Cons d ds)
      show ?thesis
      proof (cases "d = QUOTE")
        case q: True
        obtain v' r' b' where s: "scan_string ds = (v', r', b')" by (cases "scan_string ds")
        with "2.prems"(1) True Cons q have e: "v = QUOTE # v'" "r = r'" "b' = True" by simp_all
        from "2.IH"(1) [OF True Cons q, of v' r'] s e "2.prems"(2)
        have "scan_string (ds @ t) = (v', r' @ t, True)" by simp
        with True Cons q e show ?thesis by simp
      next
        case False
        with "2.prems" True Cons show ?thesis by auto
      qed
    qed
  next
    case False
    obtain v' r' b' where s: "scan_string cs = (v', r', b')" by (cases "scan_string cs")
    with "2.prems"(1) False have e: "v = c # v'" "r = r'" "b' = True" by simp_all
    from "2.IH"(2) [OF False, of v' r'] s e "2.prems"(2)
    have "scan_string (cs @ t) = (v', r' @ t, True)" by simp
    with False e show ?thesis by simp
  qed
qed

lemma dropWhile_dropWhile_append:
  "dropWhile P (dropWhile P xs @ ys) = dropWhile P (xs @ ys)"
  by (induction xs) simp_all

lemma folded_base:
  "folded (CHR ''-'' # NL # r) = folded (CHR '' '' # r)"
proof -
  have "folded (CHR ''-'' # NL # r) = folded (NL # r)" by (rule folded_dash)
  also have "\<dots> = folded (dropWhile ex_space r)"
    by (simp add: folded_def lexs_space ex_space_def)
  also have "\<dots> = folded (CHR '' '' # r)"
    by (simp add: folded_def lexs_space ex_space_def)
  finally show ?thesis .
qed

lemma open_string_comment_open:
  "\<not> comment_closed s \<Longrightarrow> after_comment s = []"
  by (induction s rule: comment_closed.induct) auto

lemma folded_fold:
  assumes "\<not> open_string p"
  shows "folded (p @ CHR ''-'' # NL # r) = folded (p @ CHR '' '' # r)"
  using assms
proof (induction p rule: length_induct)
  case (1 p)
  note IH = "1.IH" [rule_format]
  let ?X1 = "CHR ''-'' # NL # r"
  let ?X2 = "CHR '' '' # r"
  show ?case
  proof (cases p)
    case Nil
    then show ?thesis by (simp add: folded_base)
  next
    case (Cons c cs)
    consider (ws) "ex_space c"
      | (comment) "c = CHR ''/''" "second p = Some (CHR ''*'')"
      | (dash) "c = CHR ''-''"
      | (lparen) "c = CHR ''(''"
      | (rparen) "c = CHR '')''"
      | (quote) "c = QUOTE"
      | (word) "word_start c"
      | (other) "\<not> ex_space c" "\<not> (c = CHR ''/'' \<and> second p = Some (CHR ''*''))"
          "c \<noteq> CHR ''-''" "c \<noteq> CHR ''(''" "c \<noteq> CHR '')''" "c \<noteq> QUOTE" "\<not> word_start c"
      by blast
    then show ?thesis
    proof cases
      case ws
      let ?p' = "dropWhile ex_space cs"
      have sk: "\<forall>x\<in>set (takeWhile ex_space (c # cs)). x \<noteq> QUOTE \<and> x \<noteq> CHR ''/''"
        by (auto simp: ex_space_def dest!: set_takeWhileD)
      have "open_string (takeWhile ex_space (c # cs) @ dropWhile ex_space (c # cs)) =
          open_string (dropWhile ex_space (c # cs))"
        using sk by (rule open_string_skip)
      with "1.prems" Cons ws have no: "\<not> open_string ?p'" by simp
      have len: "length ?p' < length p"
        using Cons length_dropWhile_le [of ex_space cs] by simp
      have e: "folded (p @ t) = folded (?p' @ t)" for t
      proof -
        have "lexs (p @ t) = lexs (dropWhile ex_space (cs @ t))"
          using Cons ws by (simp add: lexs_space)
        also have "\<dots> = lexs (dropWhile ex_space (?p' @ t))"
          by (simp add: dropWhile_dropWhile_append)
        also have "\<dots> = lexs (?p' @ t)" by (rule lexs_dropWhile_space)
        finally show ?thesis by (simp add: folded_def)
      qed
      with IH [OF len no] show ?thesis by simp
    next
      case comment
      then obtain cs' where cs: "cs = CHR ''*'' # cs'"
        using Cons by (cases cs) auto
      show ?thesis
      proof (cases "comment_closed cs'")
        case True
        let ?p' = "after_comment cs'"
        have len: "length ?p' < length p"
          using Cons cs after_comment_length [of cs'] by simp
        have no: "\<not> open_string ?p'"
          using "1.prems" Cons cs comment by (simp add: open_string_comment)
        have "folded (p @ t) = folded (?p' @ t)" for t
          using Cons cs comment True
          by (simp add: folded_def lexs_comment after_comment_closed)
        with IH [OF len no] show ?thesis by simp
      next
        case False
        have "folded (p @ ?X1) = folded (after_comment (NL # r))"
          using Cons cs comment False
          by (simp add: folded_def lexs_comment after_comment_open)
        also have "\<dots> = folded (after_comment r)" by (simp add: after_comment_skip)
        also have "\<dots> = folded (p @ ?X2)"
          using Cons cs comment False
          by (simp add: folded_def lexs_comment after_comment_open)
        finally show ?thesis .
      qed
    next
      case dash
      have len: "length cs < length p" using Cons by simp
      have no: "\<not> open_string cs"
        using "1.prems" Cons dash by (simp add: open_string_other)
      have "folded (p @ t) = folded (cs @ t)" for t
        using Cons dash by (simp add: folded_dash)
      with IH [OF len no] show ?thesis by simp
    next
      case lparen
      have len: "length cs < length p" using Cons by simp
      have no: "\<not> open_string cs"
        using "1.prems" Cons lparen by (simp add: open_string_other)
      have "folded (p @ t) = (ex_LPAREN, ''('') # folded (cs @ t)" for t
        using Cons lparen by (simp add: folded_def lexs_lparen)
      with IH [OF len no] show ?thesis by simp
    next
      case rparen
      have len: "length cs < length p" using Cons by simp
      have no: "\<not> open_string cs"
        using "1.prems" Cons rparen by (simp add: open_string_other)
      have "folded (p @ t) = (ex_RPAREN, '')'') # folded (cs @ t)" for t
        using Cons rparen by (simp add: folded_def lexs_rparen)
      with IH [OF len no] show ?thesis by simp
    next
      case quote
      obtain v q b where sc: "scan_string cs = (v, q, b)" by (cases "scan_string cs")
      from "1.prems" Cons quote sc have b: "b" and no: "\<not> open_string q"
        by (auto simp: open_string_quote split: if_splits)
      have len: "length q < length p"
        using Cons scan_string_length [OF sc] by simp
      have "folded (p @ x # t) = (ex_STRING, v) # folded (q @ x # t)" if "x \<noteq> QUOTE" for x t
      proof -
        from sc b that have "scan_string (cs @ x # t) = (v, q @ x # t, True)"
          by (intro scan_string_append) simp_all
        then show ?thesis using Cons quote by (simp add: folded_def lexs_quote)
      qed
      with IH [OF len no] show ?thesis by simp
    next
      case word
      note wf = word_start_facts [OF word]
      let ?p' = "dropWhile ex_ident_char p"
      have len: "length ?p' < length p"
        using Cons wf(7) length_dropWhile_le [of ex_ident_char cs] by simp
      have sk: "\<forall>x\<in>set (takeWhile ex_ident_char p). x \<noteq> QUOTE \<and> x \<noteq> CHR ''/''"
        by (auto simp: ex_ident_char_def isalnum_def dest!: set_takeWhileD)
      have "open_string (takeWhile ex_ident_char p @ ?p') = open_string ?p'"
        using sk by (rule open_string_skip)
      with "1.prems" have no: "\<not> open_string ?p'" by simp
      have "folded (p @ x # t) = word_token (takeWhile ex_ident_char p) # folded (?p' @ x # t)"
        if "\<not> ex_ident_char x" for x t
      proof -
        have "lexs (p @ x # t) =
            word_token (takeWhile ex_ident_char (p @ x # t)) # lexs (dropWhile ex_ident_char (p @ x # t))"
          using Cons word lexs_word [of c "cs @ x # t"] by simp
        moreover have "takeWhile ex_ident_char (p @ x # t) = takeWhile ex_ident_char p"
          using that by (simp add: takeWhile_append) (metis takeWhile_eq_all_conv)
        moreover have "dropWhile ex_ident_char (p @ x # t) = ?p' @ x # t"
          using that by (simp add: dropWhile_append)
        moreover have "fst (word_token w) \<noteq> ex_CONTINUATION" for w
          by (simp add: word_token_def Let_def)
        ultimately show ?thesis by (simp add: folded_def)
      qed
      with IH [OF len no] show ?thesis
        by (simp add: ex_ident_char_def isalnum_def)
    next
      case other
      have len: "length cs < length p" using Cons by simp
      have no: "\<not> open_string cs"
        using "1.prems" Cons other by (simp add: open_string_other)
      have "folded (p @ x # t) = folded (cs @ x # t)" if "x \<noteq> CHR ''*''" for x t
      proof -
        have "\<not> (c = CHR ''/'' \<and> second (c # cs @ x # t) = Some (CHR ''*''))"
          using other(2) Cons that by (cases cs) auto
        with other Cons show ?thesis by (simp add: folded_def lexs_other)
      qed
      with IH [OF len no] show ?thesis by simp
    qed
  qed
qed


section \<open>Continuation folding\<close>

lemma join_with_snoc:
  "ls \<noteq> [] \<Longrightarrow> join_with sep (ls @ [l]) = join_with sep ls @ sep @ l"
  by (induction sep ls rule: join_with.induct) simp_all

lemma folded_join:
  "markers_outside_strings ls \<Longrightarrow>
   folded (join_with (CHR ''-'' # [NL]) ls @ t) = folded (join_with '' '' ls @ t)"
proof (induction ls arbitrary: t rule: rev_induct)
  case Nil
  show ?case by simp
next
  case (snoc l ls)
  show ?case
  proof (cases "ls = []")
    case True
    then show ?thesis by simp
  next
    case False
    let ?c = "CHR ''-'' # [NL]"
    have m: "markers_outside_strings ls"
      unfolding markers_outside_strings_def list_all_iff
    proof
      fix k
      assume "k \<in> set [1..<length ls]"
      then have "k \<in> set [1..<length (ls @ [l])]" and "take k (ls @ [l]) = take k ls"
        by simp_all
      with snoc.prems show "\<not> open_string (join_with ?c (take k ls))"
        unfolding markers_outside_strings_def list_all_iff by metis
    qed
    from False have "length ls \<in> set [1..<length (ls @ [l])]" by (cases ls) auto
    moreover have "take (length ls) (ls @ [l]) = ls" by simp
    ultimately have no: "\<not> open_string (join_with ?c ls)"
      using snoc.prems unfolding markers_outside_strings_def list_all_iff by metis
    have "folded (join_with ?c (ls @ [l]) @ t) = folded (join_with ?c ls @ CHR ''-'' # NL # (l @ t))"
      using False by (simp add: join_with_snoc)
    also have "\<dots> = folded (join_with ?c ls @ CHR '' '' # (l @ t))"
      using no by (rule folded_fold)
    also have "\<dots> = folded (join_with '' '' ls @ CHR '' '' # (l @ t))"
      using snoc.IH [OF m] by simp
    also have "\<dots> = folded (join_with '' '' (ls @ [l]) @ t)"
      using False by (simp add: join_with_snoc)
    finally show ?thesis .
  qed
qed

lemma tokens_Parser_folded:
  "map strip (tokens (Parser (ex_tokenize s))) = folded s"
  by (simp add: Parser_def strip_filter ex_tokenize_lexs folded_def)

text \<open>
  C5, as the code has it. A command written on several physical lines, each line but the
  last followed by the continuation marker \<^verbatim>\<open>-\<close> and a newline, where no marker lies
  inside a string literal that is still open, is lexed and parsed to the same result (the
  same command, with its userids, keywords, flags and segments, or the same error) as the
  same lines joined by one blank each. The tokens that reach the parser have the same
  types and values in both texts; only their lines and columns differ.
\<close>

theorem continuation_folding:
  assumes "markers_outside_strings ls"
  shows "parse_adduser n (join_with (CHR ''-'' # [NL]) ls) = parse_adduser n (join_with '' '' ls) \<and>
         map strip (tokens (Parser (ex_tokenize (join_with (CHR ''-'' # [NL]) ls)))) =
         map strip (tokens (Parser (ex_tokenize (join_with '' '' ls))))"
proof -
  from folded_join [OF assms, of "[]"]
  have f: "folded (join_with (CHR ''-'' # [NL]) ls) = folded (join_with '' '' ls)" by simp
  then have t: "map strip (tokens (Parser (ex_tokenize (join_with (CHR ''-'' # [NL]) ls)))) =
      map strip (tokens (Parser (ex_tokenize (join_with '' '' ls))))"
    by (simp add: tokens_Parser_folded)
  then have "parse n (Parser (ex_tokenize (join_with (CHR ''-'' # [NL]) ls))) =
      parse n (Parser (ex_tokenize (join_with '' '' ls)))"
    by (rule parse_strip_cong) (simp add: Parser_def)
  with t show ?thesis by (simp add: parse_adduser_def)
qed

lemma folding_lines_ok: "markers_outside_strings folding_lines"
  by code_simp

lemma folding_parse:
  "segment_scalar (parse_adduser 10 (join_with '' '' folding_lines)) ''OMVS'' ''UID'' = Some ''1000''"
  "segment_scalar (parse_adduser 10 (join_with '' '' folding_lines)) ''OMVS'' ''HOME'' = Some ''/u/jsmith''"
  by code_simp+

text \<open>The command \<^verbatim>\<open>ADDUSER (JSMITH) OMVS(UID(1000) HOME('/u/jsmith'))\<close> on two lines.\<close>

theorem continuation_folding_witness:
  "markers_outside_strings folding_lines \<and>
   parse_adduser 10 (join_with (CHR ''-'' # [NL]) folding_lines) =
     parse_adduser 10 (join_with '' '' folding_lines) \<and>
   segment_scalar (parse_adduser 10 (join_with (CHR ''-'' # [NL]) folding_lines)) ''OMVS'' ''UID'' =
     Some ''1000'' \<and>
   segment_scalar (parse_adduser 10 (join_with (CHR ''-'' # [NL]) folding_lines)) ''OMVS'' ''HOME'' =
     Some ''/u/jsmith''"
  using continuation_folding [OF folding_lines_ok, of 10] folding_lines_ok folding_parse
  by simp


lemma ex_tokenize_literal_lines:
  "ex_tokenize (join_with (CHR ''-'' # [NL]) literal_lines) =
     [new_ex_Token ex_COMMAND ''ADDUSER'' 1 1, new_ex_Token ex_LPAREN ''('' 1 9,
      new_ex_Token ex_IDENTIFIER ''U'' 1 10, new_ex_Token ex_RPAREN '')'' 1 11,
      new_ex_Token ex_KEYWORD ''NAME'' 1 13, new_ex_Token ex_LPAREN ''('' 1 17,
      new_ex_Token ex_STRING (''a-'' @ [NL] @ ''b'') 1 18, new_ex_Token ex_RPAREN '')'' 2 3,
      new_ex_Token ex_EOF [] 2 4]"
  "ex_tokenize (join_with '' '' literal_lines) =
     [new_ex_Token ex_COMMAND ''ADDUSER'' 1 1, new_ex_Token ex_LPAREN ''('' 1 9,
      new_ex_Token ex_IDENTIFIER ''U'' 1 10, new_ex_Token ex_RPAREN '')'' 1 11,
      new_ex_Token ex_KEYWORD ''NAME'' 1 13, new_ex_Token ex_LPAREN ''('' 1 17,
      new_ex_Token ex_STRING ''a b'' 1 18, new_ex_Token ex_RPAREN '')'' 1 23,
      new_ex_Token ex_EOF [] 1 24]"
  by code_simp+

lemma literal_lines_open: "\<not> markers_outside_strings literal_lines"
  by code_simp

text \<open>
  C5 as stated fails: when the line break falls inside a string literal, the \<^verbatim>\<open>-\<close> and the
  newline are part of the value of the literal. The two lines of
  \<^verbatim>\<open>ADDUSER (U) NAME('a b')\<close> joined by a marker give the name \<^verbatim>\<open>a-\<close>, newline, \<^verbatim>\<open>b\<close>;
  joined by a blank they give \<^verbatim>\<open>a b\<close>.
\<close>

theorem continuation_inside_literal:
  "\<not> markers_outside_strings literal_lines \<and>
   parse_adduser 6 (join_with (CHR ''-'' # [NL]) literal_lines) =
     Some (Inr \<lparr>au_userids = [''U''],
       au_keywords = [''NAME'' \<mapsto> VStr (''a-'' @ [NL] @ ''b'')],
       au_segments = Map.empty, au_flags = {}\<rparr>) \<and>
   parse_adduser 6 (join_with '' '' literal_lines) =
     Some (Inr \<lparr>au_userids = [''U''], au_keywords = [''NAME'' \<mapsto> VStr ''a b''],
       au_segments = Map.empty, au_flags = {}\<rparr>)"
  unfolding parse_adduser_def ex_tokenize_literal_lines
  using literal_lines_open
  by (simp add: parser_eval del: parse_loop.simps(2) parse_segment_loop.simps(2))


section \<open>The continuation marker and other dashes\<close>

lemma lstrip_blank:
  "\<forall>x\<in>set ws. x = CHR '' '' \<or> x = TAB \<Longrightarrow> lstrip (ws @ r) = lstrip r"
  by (induction ws) (simp_all add: lstrip_def)

lemma tokenize_loop_dash_continuation:
  assumes "rest L = CHR ''-'' # ws @ r" and "\<forall>x\<in>set ws. x = CHR '' '' \<or> x = TAB"
    and "r = [] \<or> hd r = NL"
  shows "tokenize_loop (Suc n) L =
     map_option ((#) (new_Token CONTINUATION ''-'' (line L) (column L))) (tokenize_loop n (advance L))"
proof -
  have "lstrip (tl (rest L)) = lstrip r" using assms(1,2) by (simp add: lstrip_blank)
  moreover have "lstrip r = [] \<or> hd (lstrip r) = NL"
    using assms(3) by (cases r) (auto simp: lstrip_def)
  ultimately show ?thesis using assms(1)
    by (simp add: current_char_def Let_def del: set_simps)
qed

lemma tokenize_loop_dash_plain:
  assumes "rest L = CHR ''-'' # ws @ c # r" and "\<forall>x\<in>set ws. x = CHR '' '' \<or> x = TAB"
    and "c \<noteq> CHR '' ''" "c \<noteq> TAB" "c \<noteq> NL"
  shows "tokenize_loop (Suc n) L = tokenize_loop n (advance L)"
proof -
  have "lstrip (tl (rest L)) = lstrip (c # r)" using assms(1,2) by (simp add: lstrip_blank)
  also have "\<dots> = c # r" using assms(3,4) by (simp add: lstrip_def)
  finally show ?thesis using assms(1,5)
    by (simp add: current_char_def Let_def del: set_simps)
qed

lemma tokenize_loop_no_dash:
  "tokenize_loop n L = Some ts \<Longrightarrow> t \<in> set ts \<Longrightarrow> word_type (tk_type t) \<Longrightarrow>
   CHR ''-'' \<notin> set (tk_value t)"
proof (induction n arbitrary: L ts)
  case 0
  then show ?case by simp
next
  case (Suc n)
  show ?case
  proof (cases "current_char L")
    case None
    with Suc.prems show ?thesis by (auto simp: new_Token_def word_type_def)
  next
    case (Some c)
    from tokenize_loop_step [OF Suc.prems(1) Some] obtain L' ts' where
      s: "tokenize_loop n L' = Some ts'"
         "ts = ts' \<or> (\<exists>u. ts = u # ts' \<and> emits L u L')"
      by blast
    from s(2) Suc.prems(2) have "t \<in> set ts' \<or> (\<exists>L''. emits L t L'')" by auto
    then show ?thesis
    proof
      assume "t \<in> set ts'"
      from Suc.IH [OF s(1) this Suc.prems(3)] show ?thesis .
    next
      assume "\<exists>L''. emits L t L''"
      with Suc.prems(3) show ?thesis by (auto simp: emits_def)
    qed
  qed
qed

lemma ex_tokenize_loop_dash_continuation:
  assumes "rest L = CHR ''-'' # r" and "r = [] \<or> hd r = NL \<or> hd r = CR"
  shows "ex_tokenize_loop L =
     new_ex_Token ex_CONTINUATION ''-'' (line L) (column L) # ex_tokenize_loop (ex_advance L)"
proof -
  from assms have "peek L = None \<or> peek L = Some NL \<or> peek L = Some CR"
    by (cases r) (auto simp: peek_def)
  with assms(1) show ?thesis
    by (subst ex_tokenize_loop.simps) (auto simp: current_char_def ex_space_def)
qed

lemma ex_tokenize_loop_dash_plain:
  assumes "rest L = CHR ''-'' # c # r" and "c \<noteq> NL" and "c \<noteq> CR"
  shows "ex_tokenize_loop L = ex_tokenize_loop (ex_advance L)"
proof -
  from assms have "peek L = Some c" by (simp add: peek_def)
  with assms show ?thesis
    by (subst ex_tokenize_loop.simps) (auto simp: current_char_def ex_space_def isalnum_def)
qed

lemma word_token_no_dash:
  "CHR ''-'' \<notin> set w \<Longrightarrow> CHR ''-'' \<notin> set (snd (word_token w))"
  using upper_dash [of w] by (auto simp: word_token_def Let_def)

lemma lexs_cases:
  assumes "p \<in> set (lexs (c # cs))"
  shows "p \<in> set (lexs (dropWhile ex_space cs)) \<or> p \<in> set (lexs (after_comment (tl cs))) \<or>
     p \<in> set (lexs cs) \<or> p \<in> set (lexs (fst (snd (scan_string cs)))) \<or>
     (ex_ident_char c \<and> p \<in> set (lexs (dropWhile ex_ident_char cs))) \<or>
     p = word_token (takeWhile ex_ident_char (c # cs)) \<or> \<not> ex_word_type (fst p)"
proof -
  obtain v q b where sc: "scan_string cs = (v, q, b)" by (cases "scan_string cs")
  consider (ws) "ex_space c"
    | (comment) "c = CHR ''/''" "second (c # cs) = Some (CHR ''*'')"
    | (dash) "c = CHR ''-''"
    | (lparen) "c = CHR ''(''"
    | (rparen) "c = CHR '')''"
    | (quote) "c = QUOTE"
    | (word) "word_start c"
    | (other) "\<not> ex_space c" "\<not> (c = CHR ''/'' \<and> second (c # cs) = Some (CHR ''*''))"
        "c \<noteq> CHR ''-''" "c \<noteq> CHR ''(''" "c \<noteq> CHR '')''" "c \<noteq> QUOTE" "\<not> word_start c"
    by blast
  then show ?thesis
  proof cases
    case ws
    with assms show ?thesis by (simp add: lexs_space)
  next
    case comment
    then obtain cs' where "cs = CHR ''*'' # cs'" by (cases cs) auto
    with assms comment show ?thesis by (simp add: lexs_comment)
  next
    case dash
    have "lexs (CHR ''-'' # cs) = (ex_CONTINUATION, ''-'') # lexs cs \<or>
        lexs (CHR ''-'' # cs) = lexs cs"
      by (subst lexs.simps, subst (3) lexs.simps) (auto simp: ex_space_def isalnum_def)
    with assms dash show ?thesis by (auto simp: ex_word_type_def)
  next
    case lparen
    with assms show ?thesis by (auto simp: lexs_lparen ex_word_type_def)
  next
    case rparen
    with assms show ?thesis by (auto simp: lexs_rparen ex_word_type_def)
  next
    case quote
    with assms sc show ?thesis by (auto simp: lexs_quote [OF sc] ex_word_type_def)
  next
    case word
    note wf = word_start_facts [OF word]
    from assms word wf(7) show ?thesis by (auto simp: lexs_word)
  next
    case other
    with assms show ?thesis by (simp add: lexs_other)
  qed
qed

lemma lexs_no_dash:
  "p \<in> set (lexs s) \<Longrightarrow> ex_word_type (fst p) \<Longrightarrow> CHR ''-'' \<notin> set (snd p)"
proof (induction s arbitrary: p rule: length_induct)
  case (1 s)
  note IH = "1.IH" [rule_format]
  show ?case
  proof (cases s)
    case Nil
    with "1.prems" show ?thesis by (simp add: lexs.simps [of "[]"] ex_word_type_def)
  next
    case (Cons c cs)
    have l1: "length (dropWhile ex_space cs) < length s"
      using Cons length_dropWhile_le [of ex_space cs] by simp
    have l2: "length (after_comment (tl cs)) < length s"
      using Cons after_comment_length [of "tl cs"] by (cases cs) auto
    have l3: "length cs < length s" using Cons by simp
    have l4: "length (fst (snd (scan_string cs))) < length s"
      using Cons scan_string_rest_length [of cs] by simp
    have l5: "length (dropWhile ex_ident_char cs) < length s"
      using Cons length_dropWhile_le [of ex_ident_char cs] by simp
    have w: "CHR ''-'' \<notin> set (snd (word_token (takeWhile ex_ident_char (c # cs))))"
      by (rule word_token_no_dash) (auto simp: ex_ident_char_def isalnum_def dest!: set_takeWhileD)
    from "1.prems"(1) Cons have "p \<in> set (lexs (c # cs))" by simp
    from lexs_cases [OF this] show ?thesis
    proof (elim disjE conjE)
      assume "p \<in> set (lexs (dropWhile ex_space cs))"
      from IH [OF l1 this "1.prems"(2)] show ?thesis .
    next
      assume "p \<in> set (lexs (after_comment (tl cs)))"
      from IH [OF l2 this "1.prems"(2)] show ?thesis .
    next
      assume "p \<in> set (lexs cs)"
      from IH [OF l3 this "1.prems"(2)] show ?thesis .
    next
      assume "p \<in> set (lexs (fst (snd (scan_string cs))))"
      from IH [OF l4 this "1.prems"(2)] show ?thesis .
    next
      assume "p \<in> set (lexs (dropWhile ex_ident_char cs))"
      from IH [OF l5 this "1.prems"(2)] show ?thesis .
    next
      assume "p = word_token (takeWhile ex_ident_char (c # cs))"
      with w show ?thesis by simp
    next
      assume "\<not> ex_word_type (fst p)"
      with "1.prems"(2) show ?thesis by simp
    qed
  qed
qed

lemma ex_tokenize_no_dash:
  assumes "t \<in> set (ex_tokenize s)" and "ex_word_type (ex_type t)"
  shows "CHR ''-'' \<notin> set (ex_value t)"
proof -
  from assms(1) have "strip t \<in> set (lexs s)"
    using ex_tokenize_lexs [of s] by (metis image_eqI set_map)
  from lexs_no_dash [OF this] assms(2) show ?thesis by (simp add: strip_def)
qed

text \<open>
  C9, as the code has it. In the server's lexer a \<^verbatim>\<open>-\<close> under the main loop that is
  followed, after blanks and tabs only, by a newline or by the end of the text is emitted as
  a CONTINUATION token; any other \<^verbatim>\<open>-\<close> under the main loop is consumed and no token is
  emitted for it. In the example lexer the \<^verbatim>\<open>-\<close> is emitted as a CONTINUATION token only
  when the very next character is a newline, a carriage return or the end of the text; any
  other \<^verbatim>\<open>-\<close> under the main loop is consumed and no token is emitted for it. In both
  lexers no command, keyword, segment, identifier or number token has a \<^verbatim>\<open>-\<close> in its
  value.
\<close>

theorem dash_handling:
  "(rest La = CHR ''-'' # ws @ r \<and> (\<forall>x\<in>set ws. x = CHR '' '' \<or> x = TAB) \<and>
    (r = [] \<or> hd r = NL) \<longrightarrow>
      tokenize_loop (Suc n) La =
        map_option ((#) (new_Token CONTINUATION ''-'' (line La) (column La)))
          (tokenize_loop n (advance La))) \<and>
   (rest Lb = CHR ''-'' # wsb @ c # rb \<and> (\<forall>x\<in>set wsb. x = CHR '' '' \<or> x = TAB) \<and>
    c \<noteq> CHR '' '' \<and> c \<noteq> TAB \<and> c \<noteq> NL \<longrightarrow>
      tokenize_loop (Suc n) Lb = tokenize_loop n (advance Lb)) \<and>
   (tokenize fuel source = Some ts \<and> t \<in> set ts \<and> word_type (tk_type t) \<longrightarrow>
      CHR ''-'' \<notin> set (tk_value t)) \<and>
   (rest Ea = CHR ''-'' # q \<and> (q = [] \<or> hd q = NL \<or> hd q = CR) \<longrightarrow>
      ex_tokenize_loop Ea =
        new_ex_Token ex_CONTINUATION ''-'' (line Ea) (column Ea) # ex_tokenize_loop (ex_advance Ea)) \<and>
   (rest Eb = CHR ''-'' # d # qb \<and> d \<noteq> NL \<and> d \<noteq> CR \<longrightarrow>
      ex_tokenize_loop Eb = ex_tokenize_loop (ex_advance Eb)) \<and>
   (u \<in> set (ex_tokenize s) \<and> ex_word_type (ex_type u) \<longrightarrow> CHR ''-'' \<notin> set (ex_value u))"
proof (intro conjI impI)
  assume "rest La = CHR ''-'' # ws @ r \<and> (\<forall>x\<in>set ws. x = CHR '' '' \<or> x = TAB) \<and>
    (r = [] \<or> hd r = NL)"
  then show "tokenize_loop (Suc n) La =
      map_option ((#) (new_Token CONTINUATION ''-'' (line La) (column La)))
        (tokenize_loop n (advance La))"
    using tokenize_loop_dash_continuation [of La ws r n] by blast
next
  assume "rest Lb = CHR ''-'' # wsb @ c # rb \<and> (\<forall>x\<in>set wsb. x = CHR '' '' \<or> x = TAB) \<and>
    c \<noteq> CHR '' '' \<and> c \<noteq> TAB \<and> c \<noteq> NL"
  then show "tokenize_loop (Suc n) Lb = tokenize_loop n (advance Lb)"
    using tokenize_loop_dash_plain [of Lb wsb c rb n] by blast
next
  assume "tokenize fuel source = Some ts \<and> t \<in> set ts \<and> word_type (tk_type t)"
  then show "CHR ''-'' \<notin> set (tk_value t)"
    using tokenize_loop_no_dash [of fuel "Lexer source" ts t] by (simp add: tokenize_def)
next
  assume "rest Ea = CHR ''-'' # q \<and> (q = [] \<or> hd q = NL \<or> hd q = CR)"
  then show "ex_tokenize_loop Ea =
      new_ex_Token ex_CONTINUATION ''-'' (line Ea) (column Ea) # ex_tokenize_loop (ex_advance Ea)"
    using ex_tokenize_loop_dash_continuation [of Ea q] by blast
next
  assume "rest Eb = CHR ''-'' # d # qb \<and> d \<noteq> NL \<and> d \<noteq> CR"
  then show "ex_tokenize_loop Eb = ex_tokenize_loop (ex_advance Eb)"
    using ex_tokenize_loop_dash_plain [of Eb d qb] by blast
next
  assume "u \<in> set (ex_tokenize s) \<and> ex_word_type (ex_type u)"
  then show "CHR ''-'' \<notin> set (ex_value u)"
    using ex_tokenize_no_dash [of u s] by blast
qed

lemma dash_server_tokens:
  "tokenize 3 ''-  '' = Some [new_Token CONTINUATION ''-'' 0 0, new_Token EOF [] 0 3]"
  "tokenize 3 ''-A'' = Some [new_Token IDENTIFIER ''A'' 0 1, new_Token EOF [] 0 2]"
  "tokenize 4 ''A-B'' =
     Some [new_Token IDENTIFIER ''A'' 0 0, new_Token IDENTIFIER ''B'' 0 2, new_Token EOF [] 0 3]"
  by code_simp+

lemma dash_example_tokens:
  "ex_tokenize (CHR ''-'' # NL # ''A'') =
     [new_ex_Token ex_CONTINUATION ''-'' 1 1, new_ex_Token ex_IDENTIFIER ''A'' 2 1,
      new_ex_Token ex_EOF [] 2 2]"
  "ex_tokenize ''-A'' = [new_ex_Token ex_IDENTIFIER ''A'' 1 2, new_ex_Token ex_EOF [] 1 3]"
  "ex_tokenize ''A-B'' =
     [new_ex_Token ex_IDENTIFIER ''A'' 1 1, new_ex_Token ex_IDENTIFIER ''B'' 1 3,
      new_ex_Token ex_EOF [] 1 4]"
  by code_simp+

text \<open>
  The texts \<^verbatim>\<open>-\<close> followed by two blanks, \<^verbatim>\<open>-A\<close> and \<^verbatim>\<open>A-B\<close> in the server's lexer;
  \<^verbatim>\<open>-\<close> followed by a newline and \<^verbatim>\<open>A\<close>, \<^verbatim>\<open>-A\<close> and \<^verbatim>\<open>A-B\<close> in the example lexer.
\<close>

theorem dash_handling_witness:
  "rest (Lexer ''-  '') = CHR ''-'' # ''  '' @ [] \<and>
   tokenize_loop (Suc 2) (Lexer ''-  '') =
     map_option ((#) (new_Token CONTINUATION ''-'' 0 0)) (tokenize_loop 2 (advance (Lexer ''-  ''))) \<and>
   tokenize 3 ''-  '' = Some [new_Token CONTINUATION ''-'' 0 0, new_Token EOF [] 0 3] \<and>
   rest (Lexer ''-A'') = CHR ''-'' # [] @ CHR ''A'' # [] \<and>
   tokenize_loop (Suc 2) (Lexer ''-A'') = tokenize_loop 2 (advance (Lexer ''-A'')) \<and>
   tokenize 3 ''-A'' = Some [new_Token IDENTIFIER ''A'' 0 1, new_Token EOF [] 0 2] \<and>
   tokenize 4 ''A-B'' =
     Some [new_Token IDENTIFIER ''A'' 0 0, new_Token IDENTIFIER ''B'' 0 2, new_Token EOF [] 0 3] \<and>
   word_type (tk_type (new_Token IDENTIFIER ''B'' 0 2)) \<and>
   CHR ''-'' \<notin> set (tk_value (new_Token IDENTIFIER ''B'' 0 2)) \<and>
   rest (ex_Lexer (CHR ''-'' # NL # ''A'')) = CHR ''-'' # NL # ''A'' \<and>
   ex_tokenize_loop (ex_Lexer (CHR ''-'' # NL # ''A'')) =
     new_ex_Token ex_CONTINUATION ''-'' 1 1 #
     ex_tokenize_loop (ex_advance (ex_Lexer (CHR ''-'' # NL # ''A''))) \<and>
   rest (ex_Lexer ''-A'') = CHR ''-'' # CHR ''A'' # [] \<and>
   ex_tokenize_loop (ex_Lexer ''-A'') = ex_tokenize_loop (ex_advance (ex_Lexer ''-A'')) \<and>
   new_ex_Token ex_IDENTIFIER ''B'' 1 3 \<in> set (ex_tokenize ''A-B'') \<and>
   ex_word_type (ex_type (new_ex_Token ex_IDENTIFIER ''B'' 1 3)) \<and>
   CHR ''-'' \<notin> set (ex_value (new_ex_Token ex_IDENTIFIER ''B'' 1 3))"
  using dash_handling [where La = "Lexer ''-  ''" and ws = "''  ''" and r = "[]" and n = 2
      and Lb = "Lexer ''-A''" and wsb = "[]" and c = "CHR ''A''" and rb = "[]"
      and fuel = 4 and source = "''A-B''"
      and ts = "[new_Token IDENTIFIER ''A'' 0 0, new_Token IDENTIFIER ''B'' 0 2, new_Token EOF [] 0 3]"
      and t = "new_Token IDENTIFIER ''B'' 0 2"
      and Ea = "ex_Lexer (CHR ''-'' # NL # ''A'')" and q = "NL # ''A''"
      and Eb = "ex_Lexer ''-A''" and d = "CHR ''A''" and qb = "[]"
      and u = "new_ex_Token ex_IDENTIFIER ''B'' 1 3" and s = "''A-B''"]
    dash_server_tokens dash_example_tokens
  by (simp add: Lexer_def ex_Lexer_def new_Token_def new_ex_Token_def word_type_def
      ex_word_type_def del: tokenize_loop.simps)

text \<open>
  C9: in the example lexer a \<^verbatim>\<open>-\<close> followed by a blank and the end of the text is not
  emitted as a CONTINUATION token; the server's lexer emits one for the same text.
\<close>

theorem dash_blank_no_continuation:
  "ex_tokenize ''- '' = [new_ex_Token ex_EOF [] 1 3] \<and>
   tokenize 3 ''- '' = Some [new_Token CONTINUATION ''-'' 0 0, new_Token EOF [] 0 2]"
  by code_simp


end
